theory Spec2Isabelle
  imports Main
begin

section \<open>Strings\<close>

text \<open>
  A Python \<open>str\<close> is modelled as a \<open>string\<close> whose characters are the code points
  below 256. \<open>is_space\<close> is \<open>str.isspace\<close> on that range, which is what
  \<open>str.split()\<close> and \<open>str.strip()\<close> use as separators.
\<close>

definition is_space :: "char \<Rightarrow> bool" where
  "is_space c = (c \<in> set [CHR 0x09, CHR 0x0A, CHR 0x0B, CHR 0x0C, CHR 0x0D,
                           CHR 0x1C, CHR 0x1D, CHR 0x1E, CHR 0x1F, CHR 0x20,
                           CHR 0x85, CHR 0xA0])"

text \<open>\<open>s.split()\<close>: the maximal runs of non-whitespace characters, in order.
  \<open>cur\<close> is the run being read.\<close>

fun split_from :: "string \<Rightarrow> string \<Rightarrow> string list" where
  "split_from cur [] = (if cur = [] then [] else [cur])"
| "split_from cur (c # cs) =
     (if is_space c then (if cur = [] then split_from [] cs else cur # split_from [] cs)
      else split_from (cur @ [c]) cs)"

definition split_ws :: "string \<Rightarrow> string list" where
  "split_ws s = split_from [] s"

text \<open>\<open>" ".join(ws)\<close>.\<close>

fun join_space :: "string list \<Rightarrow> string" where
  "join_space [] = []"
| "join_space [w] = w"
| "join_space (w # v # ws) = w @ CHR 0x20 # join_space (v # ws)"

text \<open>\<open>s.strip()\<close> and \<open>s.lower()\<close> (on code points below 256 the cased letters are
  A-Z and the Latin-1 capitals 0xC0-0xDE without the multiplication sign 0xD7).\<close>

definition strip :: "string \<Rightarrow> string" where
  "strip s = rev (dropWhile is_space (rev (dropWhile is_space s)))"

definition lower_char :: "char \<Rightarrow> char" where
  "lower_char c =
     (let n = of_char c :: nat in
      if (65 \<le> n \<and> n \<le> 90) \<or> (192 \<le> n \<and> n \<le> 222 \<and> n \<noteq> 215)
      then char_of (n + 32) else c)"

definition lower :: "string \<Rightarrow> string" where
  "lower s = map lower_char s"

text \<open>\<open>Path(file).stem\<close>: the final path component without its last suffix.
  \<open>rfind_dot\<close> is \<open>name.rfind('.')\<close>, with \<open>None\<close> for Python's -1.\<close>

definition path_name :: "string \<Rightarrow> string" where
  "path_name p = rev (takeWhile (\<lambda>c. c \<noteq> CHR ''/'') (rev p))"

fun rfind_dot :: "string \<Rightarrow> nat option" where
  "rfind_dot [] = None"
| "rfind_dot (c # cs) =
     (case rfind_dot cs of
        Some i \<Rightarrow> Some (Suc i)
      | None \<Rightarrow> (if c = CHR ''.'' then Some 0 else None))"

definition stem :: "string \<Rightarrow> string" where
  "stem p =
     (let name = path_name p in
      case rfind_dot name of
        None \<Rightarrow> name
      | Some i \<Rightarrow> (if 0 < i \<and> i < length name - 1 then take i name else name))"

text \<open>\<open>str(n)\<close> for a length, as the f-string of the shortfall message prints it.\<close>

fun show_nat :: "nat \<Rightarrow> string" where
  "show_nat n =
     (if n < 10 then [char_of (48 + n)]
      else show_nat (n div 10) @ [char_of (48 + n mod 10)])"

section \<open>Dictionaries\<close>

text \<open>
  A Python \<open>dict\<close> keeps its keys in insertion order, and that order decides the ids
  the program assigns. It is modelled as an association list: \<open>d[k] = v\<close> replaces
  the value of a key already present, where it stands, and appends a new key.
  \<open>d[k]\<close> is \<open>map_of d k\<close>, with \<open>None\<close> for the KeyError. A loop
  \<open>for k in d\<close> whose body reads \<open>d[k]\<close> is the loop over the entries of the list.
\<close>

fun dict_set :: "('k \<times> 'v) list \<Rightarrow> 'k \<Rightarrow> 'v \<Rightarrow> ('k \<times> 'v) list" where
  "dict_set [] k v = [(k, v)]"
| "dict_set (p # ps) k v = (if fst p = k then (k, v) # ps else p # dict_set ps k v)"

text \<open>\<open>xs.index(x)\<close>: the first position of \<open>x\<close>, \<open>None\<close> for the ValueError.\<close>

fun index_of :: "'a list \<Rightarrow> 'a \<Rightarrow> nat option" where
  "index_of [] x = None"
| "index_of (y # ys) x = (if y = x then Some 0 else map_option Suc (index_of ys x))"

section \<open>The state of a run\<close>

datatype error =
    KeyError string
  | IndexError
  | ValueError string
  | FileNotFoundError string
  | NotADirectoryError string
  | OSError string

text \<open>A method either returns or raises; the object keeps what was assigned before
  the exception, so both carry the state.\<close>

datatype 's outcome = Done 's | Raised error 's

fun and_then :: "'s outcome \<Rightarrow> ('s \<Rightarrow> 's outcome) \<Rightarrow> 's outcome" where
  "and_then (Done s) f = f s"
| "and_then (Raised e s) f = Raised e s"

fun outcome_state :: "'s outcome \<Rightarrow> 's" where
  "outcome_state (Done s) = s"
| "outcome_state (Raised e s) = s"

text \<open>A \<open>for\<close> loop whose body may raise.\<close>

fun for_each :: "('a \<Rightarrow> 's \<Rightarrow> 's outcome) \<Rightarrow> 'a list \<Rightarrow> 's \<Rightarrow> 's outcome" where
  "for_each body [] s = Done s"
| "for_each body (x # xs) s = and_then (body x s) (for_each body xs)"

type_synonym labeled = "string \<times> int"

record example =
  prompts :: string
  prompt_intent :: nat
  word_entities :: "int list"

text \<open>What \<open>save\<close> hands to a file: a label map for \<open>json.dump\<close>, or the data frame
  in one of the three formats.\<close>

datatype content =
    Json_map "(int \<times> string) list"
  | Csv "example list"
  | Pkl "example list"
  | Json_frame "example list"

text \<open>
  The fields of a \<open>Dataset\<close> object, and with them what the run did to the world:
  the lines printed, the number of draws taken from the random generator, and the
  files written.
\<close>

record state =
  dataset_path :: string
  samples_per_intent :: int
  duplicates :: bool
  entities :: "(string \<times> labeled list) list"
  entities_label :: "(int \<times> string) list"
  intents :: "(string \<times> string list) list"
  intents_label :: "(int \<times> string) list"
  filled_prompts :: "(string \<times> labeled list list list) list"
  premutated_prompts :: "(string \<times> labeled list list) list"
  generated_prompts :: "(string \<times> labeled list list) list"
  dataset :: "example list"
  stdout :: "string list"
  draws :: nat
  written :: "(string \<times> content) list"

text \<open>
  The file system, the same during the whole run, as the calls of the program see
  it: \<open>os.path.isdir\<close>, \<open>glob.glob\<close> (whose order is the operating system's),
  \<open>open(file).readlines()\<close> (\<open>None\<close> when the file cannot be opened),
  \<open>open(path, "w")\<close> and the writers of the data frame (\<open>to_csv\<close>, \<open>to_pickle\<close>,
  \<open>to_json\<close>), each with \<open>None\<close> when the file is created and the exception
  otherwise. The program never tests a path before it writes, so whether a write
  succeeds is the file system's answer for the very path string the program builds.
\<close>

record env =
  isdir :: "string \<Rightarrow> bool"
  glob :: "string \<Rightarrow> string list"
  readlines :: "string \<Rightarrow> string list option"
  open_write :: "string \<Rightarrow> error option"
  write_frame :: "string \<Rightarrow> error option"

definition Dataset_init :: "string \<Rightarrow> int \<Rightarrow> bool \<Rightarrow> state" where
  "Dataset_init path n dup =
     \<lparr>dataset_path = path, samples_per_intent = n, duplicates = dup,
      entities = [], entities_label = [], intents = [], intents_label = [],
      filled_prompts = [], premutated_prompts = [], generated_prompts = [],
      dataset = [], stdout = [], draws = 0, written = []\<rparr>"

section \<open>Loading\<close>

text \<open>
  \<open>_load_raw\<close>. \<open>mk\<close> builds one sample from the cleaned line and the file's id: the
  pair for \<open>assign_ids = True\<close>, the line alone for \<open>assign_ids = False\<close>.
  \<open>start_id\<close> grows by one per file, whatever its stem.
\<close>

definition read_samples :: "(string \<Rightarrow> int \<Rightarrow> 'a) \<Rightarrow> int \<Rightarrow> string list \<Rightarrow> 'a list" where
  "read_samples mk start_id ls =
     map (\<lambda>line. mk (strip (lower line)) start_id)
       (filter (\<lambda>line. \<not> (line \<noteq> [] \<and> hd line = CHR ''#'')) ls)"

fun load_raw_loop ::
  "(string \<Rightarrow> string list option) \<Rightarrow> (string \<Rightarrow> int \<Rightarrow> 'a) \<Rightarrow> string list \<Rightarrow> int \<Rightarrow>
   (string \<times> 'a list) list \<Rightarrow> error + (string \<times> 'a list) list" where
  "load_raw_loop rd mk [] start_id data = Inr data"
| "load_raw_loop rd mk (file # files) start_id data =
     (case rd file of
        None \<Rightarrow> Inl (OSError file)
      | Some ls \<Rightarrow>
          load_raw_loop rd mk files (start_id + 1)
            (dict_set data (stem file) (read_samples mk start_id ls)))"

definition load_raw_ids ::
  "(string \<Rightarrow> string list option) \<Rightarrow> string list \<Rightarrow> error + (string \<times> labeled list) list" where
  "load_raw_ids rd files = load_raw_loop rd (\<lambda>s i. (s, i)) files 1 []"

definition load_raw_plain ::
  "(string \<Rightarrow> string list option) \<Rightarrow> string list \<Rightarrow> error + (string \<times> string list) list" where
  "load_raw_plain rd files = load_raw_loop rd (\<lambda>s i. s) files 1 []"

text \<open>\<open>_generate_mapping\<close>: one fresh key per key of \<open>data\<close>, counting from \<open>start_at\<close>.\<close>

fun generate_mapping_loop :: "'k list \<Rightarrow> int \<Rightarrow> (int \<times> 'k) list \<Rightarrow> (int \<times> 'k) list" where
  "generate_mapping_loop [] counter labels = labels"
| "generate_mapping_loop (item # items) counter labels =
     generate_mapping_loop items (counter + 1) (dict_set labels counter item)"

definition generate_mapping :: "('k \<times> 'v) list \<Rightarrow> int \<Rightarrow> (int \<times> 'k) list" where
  "generate_mapping data start_at = generate_mapping_loop (map fst data) start_at []"

definition load :: "env \<Rightarrow> state \<Rightarrow> state outcome" where
  "load ev st =
     (if \<not> isdir ev (dataset_path st)
      then Done (st\<lparr>stdout := stdout st @ [''Dataset directory does not exist'']\<rparr>)
      else
        case load_raw_ids (readlines ev) (glob ev (dataset_path st @ ''/*/entities/*.entity'')) of
          Inl e \<Rightarrow> Raised e st
        | Inr ents \<Rightarrow>
            (let st1 = st\<lparr>entities := ents, entities_label := generate_mapping ents 1\<rparr> in
             case load_raw_plain (readlines ev) (glob ev (dataset_path st @ ''/*/intents/*.intent'')) of
               Inl e \<Rightarrow> Raised e st1
             | Inr ints \<Rightarrow>
                 Done (st1\<lparr>intents := ints, intents_label := generate_mapping ints 0\<rparr>)))"

section \<open>Slot filling\<close>

definition is_placeholder :: "string \<Rightarrow> bool" where
  "is_placeholder word = (word \<noteq> [] \<and> hd word = CHR ''{'' \<and> last word = CHR ''}'')"

text \<open>\<open>word[1:-1]\<close>.\<close>

definition strip_braces :: "string \<Rightarrow> string" where
  "strip_braces word = butlast (tl word)"

definition fill_word :: "(string \<times> labeled list) list \<Rightarrow> string \<Rightarrow> error + labeled list" where
  "fill_word ents word =
     (if is_placeholder word
      then (case map_of ents (strip_braces word) of
              None \<Rightarrow> Inl (KeyError (strip_braces word))
            | Some values \<Rightarrow> Inr values)
      else Inr [(word, 0)])"

text \<open>The list comprehension over the words of one sample: the first failing lookup
  ends it.\<close>

fun fill_words :: "(string \<times> labeled list) list \<Rightarrow> string list \<Rightarrow> error + labeled list list" where
  "fill_words ents [] = Inr []"
| "fill_words ents (word # ws) =
     (case fill_word ents word of
        Inl e \<Rightarrow> Inl e
      | Inr slot \<Rightarrow> (case fill_words ents ws of Inl e \<Rightarrow> Inl e | Inr slots \<Rightarrow> Inr (slot # slots)))"

definition fill_sample :: "(string \<times> labeled list) list \<Rightarrow> string \<Rightarrow> error + labeled list list" where
  "fill_sample ents sample = fill_words ents (split_ws sample)"

text \<open>\<open>self.filled_prompts[intent].append([...])\<close>: the list under \<open>intent\<close> is looked
  up first, then the comprehension runs, then the slots are appended.\<close>

definition slot_filling_sample :: "string \<Rightarrow> string \<Rightarrow> state \<Rightarrow> state outcome" where
  "slot_filling_sample intent sample st =
     (case map_of (filled_prompts st) intent of
        None \<Rightarrow> Raised (KeyError intent) st
      | Some filled \<Rightarrow>
          (case fill_sample (entities st) sample of
             Inl e \<Rightarrow> Raised e st
           | Inr slots \<Rightarrow>
               Done (st\<lparr>filled_prompts :=
                 dict_set (filled_prompts st) intent (filled @ [slots])\<rparr>)))"

definition slot_filling_intent :: "string \<times> string list \<Rightarrow> state \<Rightarrow> state outcome" where
  "slot_filling_intent entry st =
     for_each (slot_filling_sample (fst entry)) (snd entry)
       (st\<lparr>filled_prompts := dict_set (filled_prompts st) (fst entry) []\<rparr>)"

definition slot_filling :: "state \<Rightarrow> state outcome" where
  "slot_filling st = for_each slot_filling_intent (intents st) st"

section \<open>Permutations\<close>

text \<open>\<open>list(itertools.product(*sample))\<close>: the rightmost slot runs fastest, and the
  product of no slots is the one empty tuple.\<close>

fun itertools_product :: "'a list list \<Rightarrow> 'a list list" where
  "itertools_product [] = [[]]"
| "itertools_product (slot # slots) =
     concat (map (\<lambda>x. map (\<lambda>rest. x # rest) (itertools_product slots)) slot)"

text \<open>The inner loop of \<open>_permutation_generation\<close>: \<open>permutations.extend(...)\<close> per sample.\<close>

fun extend_permutations :: "'a list list list \<Rightarrow> 'a list list \<Rightarrow> 'a list list" where
  "extend_permutations [] permutations = permutations"
| "extend_permutations (sample # samples) permutations =
     extend_permutations samples (permutations @ itertools_product sample)"

definition permutation_category ::
  "string \<times> labeled list list list \<Rightarrow> state \<Rightarrow> state outcome" where
  "permutation_category entry st =
     Done (st\<lparr>premutated_prompts :=
       dict_set (premutated_prompts st) (fst entry) (extend_permutations (snd entry) [])\<rparr>)"

definition permutation_generation :: "state \<Rightarrow> state outcome" where
  "permutation_generation st = for_each permutation_category (filled_prompts st) st"

section \<open>Distributing the labels\<close>

text \<open>One (value, label) pair of a sample: skipped when the value is empty, otherwise
  one pair per word of the value, each with the label.\<close>

definition distribute_word :: "labeled \<Rightarrow> labeled list" where
  "distribute_word word =
     (if fst word = [] then [] else map (\<lambda>w. (w, snd word)) (split_ws (fst word)))"

fun distribute_sample :: "labeled list \<Rightarrow> labeled list \<Rightarrow> labeled list" where
  "distribute_sample [] new_sample = new_sample"
| "distribute_sample (word # ws) new_sample =
     distribute_sample ws (new_sample @ distribute_word word)"

definition distributed_category :: "string \<times> labeled list list \<Rightarrow> state \<Rightarrow> state outcome" where
  "distributed_category entry st =
     Done (st\<lparr>generated_prompts :=
       dict_set (generated_prompts st) (fst entry)
         (map (\<lambda>sample. distribute_sample sample []) (snd entry))\<rparr>)"

definition distributed_entities_label :: "state \<Rightarrow> state outcome" where
  "distributed_entities_label st = for_each distributed_category (premutated_prompts st) st"

section \<open>Sampling and assembling\<close>

text \<open>
  \<open>random.choices(population, k=k)\<close> is library code:
  \<open>[population[floor(random() * n)] for i in repeat(None, k)]\<close>. The generator is a
  tape \<open>rnd\<close> of numbers, \<open>pos\<close> of them used so far; a draw takes the next number
  modulo \<open>n\<close> as the index, so every index below \<open>n\<close> can come out at every draw. How
  likely each index is lies outside the model. With an empty population the first
  draw reads \<open>population[0]\<close> and raises IndexError; \<open>k \<le> 0\<close> draws nothing.
\<close>

definition choices :: "(nat \<Rightarrow> nat) \<Rightarrow> nat \<Rightarrow> 'a list \<Rightarrow> int \<Rightarrow> error + 'a list" where
  "choices rnd pos population k =
     (if k \<le> 0 then Inr []
      else if population = [] then Inl IndexError
      else Inr (map (\<lambda>j. population ! (rnd (pos + j) mod length population)) [0..<nat k]))"

definition shortfall_message :: "string \<Rightarrow> nat \<Rightarrow> string" where
  "shortfall_message category n =
     ''not enough '' @ [CHR 0x22] @ category @ [CHR 0x22] @
     '' intents were generated from templates.  Limiting number of samples to '' @ show_nat n"

definition assemble :: "nat \<Rightarrow> labeled list \<Rightarrow> example" where
  "assemble i sample =
     \<lparr>prompts = join_space (map fst sample), prompt_intent = i, word_entities = map snd sample\<rparr>"

text \<open>One pass of the loop over \<open>range(len(samples))\<close>: the position of the category
  among the values of \<open>intents_label\<close> is looked up for each sample.\<close>

definition append_example :: "string \<Rightarrow> labeled list \<Rightarrow> state \<Rightarrow> state outcome" where
  "append_example category sample st =
     (case index_of (map snd (intents_label st)) category of
        None \<Rightarrow> Raised (ValueError category) st
      | Some i \<Rightarrow> Done (st\<lparr>dataset := dataset st @ [assemble i sample]\<rparr>))"

definition generate_category ::
  "(nat \<Rightarrow> nat) \<Rightarrow> string \<times> labeled list list \<Rightarrow> state \<Rightarrow> state outcome" where
  "generate_category rnd entry st =
     (if \<not> duplicates st \<and> int (length (snd entry)) < samples_per_intent st
      then for_each (append_example (fst entry)) (snd entry)
             (st\<lparr>stdout := stdout st @ [shortfall_message (fst entry) (length (snd entry))]\<rparr>)
      else
        case choices rnd (draws st) (snd entry) (samples_per_intent st) of
          Inl e \<Rightarrow> Raised e (st\<lparr>draws := draws st + 1\<rparr>)
        | Inr samples \<Rightarrow>
            for_each (append_example (fst entry)) samples
              (st\<lparr>draws := draws st + nat (samples_per_intent st)\<rparr>))"

definition generate_dataset :: "(nat \<Rightarrow> nat) \<Rightarrow> state \<Rightarrow> state outcome" where
  "generate_dataset rnd st = for_each (generate_category rnd) (generated_prompts st) st"

definition genrate_dataset :: "(nat \<Rightarrow> nat) \<Rightarrow> state \<Rightarrow> state outcome" where
  "genrate_dataset rnd st =
     and_then (and_then (and_then (slot_filling st) permutation_generation)
       distributed_entities_label) (generate_dataset rnd)"

section \<open>Saving\<close>

text \<open>\<open>with open(path, "w") as f: json.dump(labels, f)\<close>.\<close>

definition write_file :: "env \<Rightarrow> string \<Rightarrow> content \<Rightarrow> state \<Rightarrow> state outcome" where
  "write_file ev path c st =
     (case open_write ev path of
        None \<Rightarrow> Done (st\<lparr>written := written st @ [(path, c)]\<rparr>)
      | Some e \<Rightarrow> Raised e st)"

text \<open>\<open>dataframe.to_csv(path)\<close>, \<open>to_pickle\<close>, \<open>to_json\<close>.\<close>

definition write_dataframe :: "env \<Rightarrow> string \<Rightarrow> content \<Rightarrow> state \<Rightarrow> state outcome" where
  "write_dataframe ev path c st =
     (case write_frame ev path of
        None \<Rightarrow> Done (st\<lparr>written := written st @ [(path, c)]\<rparr>)
      | Some e \<Rightarrow> Raised e st)"

definition save_maps :: "env \<Rightarrow> string \<Rightarrow> state \<Rightarrow> state outcome" where
  "save_maps ev save_path st =
     and_then
       (write_file ev (save_path @ ''/intent_labels.json'') (Json_map (intents_label st)) st)
       (\<lambda>st1. write_file ev (save_path @ ''/entity_labels.json'')
                 (Json_map (entities_label st1)) st1)"

definition save :: "env \<Rightarrow> string option \<Rightarrow> string \<Rightarrow> state \<Rightarrow> state outcome" where
  "save ev save_path form st =
     (let dir = (case save_path of None \<Rightarrow> dataset_path st | Some p \<Rightarrow> p) in
      and_then (save_maps ev dir st)
        (\<lambda>st1.
           if form = ''csv''
           then write_dataframe ev (dir @ ''/dataset.csv'') (Csv (dataset st1)) st1
           else if form = ''pkl''
           then write_dataframe ev (dir @ ''/dataset.pkl'') (Pkl (dataset st1)) st1
           else write_dataframe ev (dir @ ''/dataset.json'') (Json_frame (dataset st1)) st1))"

text \<open>The script: \<open>ds = Dataset(path, n, dup); ds.load(); ds.genrate_dataset();
  ds.save(path)\<close>, with the script's constants as parameters.\<close>

definition script :: "env \<Rightarrow> (nat \<Rightarrow> nat) \<Rightarrow> string \<Rightarrow> int \<Rightarrow> bool \<Rightarrow> state outcome" where
  "script ev rnd path n dup =
     and_then (and_then (load ev (Dataset_init path n dup)) (genrate_dataset rnd))
       (save ev (Some path) ''csv'')"

section \<open>Vocabulary of the properties\<close>

text \<open>\<open>text.split(" ")\<close>, the splitting on single spaces that the alignment of words
  and labels speaks of: the pieces between the spaces, empty pieces included, so the
  empty text gives one empty piece.\<close>

fun split_sep :: "char \<Rightarrow> string \<Rightarrow> string \<Rightarrow> string list" where
  "split_sep sep cur [] = [cur]"
| "split_sep sep cur (c # cs) =
     (if c = sep then cur # split_sep sep [] cs else split_sep sep (cur @ [c]) cs)"

definition split_single_space :: "string \<Rightarrow> string list" where
  "split_single_space s = split_sep (CHR 0x20) [] s"


text \<open>A word: not empty and free of whitespace.\<close>

definition wordlike :: "string \<Rightarrow> bool" where
  "wordlike w = (w \<noteq> [] \<and> list_all (\<lambda>c. \<not> is_space c) w)"

text \<open>Everything the templates of \<open>ints\<close> can produce with the entities \<open>ents\<close>, stage
  by stage: the templates, their filled slots, the expanded utterances and the labeled
  utterances.\<close>

definition all_templates :: "(string \<times> string list) list \<Rightarrow> string list" where
  "all_templates ints = concat (map snd ints)"

definition all_slots ::
  "(string \<times> labeled list) list \<Rightarrow> (string \<times> string list) list \<Rightarrow> labeled list list list" where
  "all_slots ents ints =
     concat (map (\<lambda>t. case fill_sample ents t of Inl e \<Rightarrow> [] | Inr slots \<Rightarrow> [slots])
       (all_templates ints))"

definition all_expanded ::
  "(string \<times> labeled list) list \<Rightarrow> (string \<times> string list) list \<Rightarrow> labeled list list" where
  "all_expanded ents ints = concat (map itertools_product (all_slots ents ints))"

definition all_labeled ::
  "(string \<times> labeled list) list \<Rightarrow> (string \<times> string list) list \<Rightarrow> labeled list list" where
  "all_labeled ents ints = map (\<lambda>u. distribute_sample u []) (all_expanded ents ints)"

text \<open>The entries of a stage's dictionary: every key is one of \<open>keys\<close> and every
  element of every value satisfies \<open>P\<close>.\<close>

definition entries_ok :: "'k list \<Rightarrow> ('v \<Rightarrow> bool) \<Rightarrow> ('k \<times> 'v list) list \<Rightarrow> bool" where
  "entries_ok keys P d = list_all (\<lambda>entry. fst entry \<in> set keys \<and> list_all P (snd entry)) d"

text \<open>The invariant of the pipeline: the stages hold only what the loaded templates
  and entities produce, under the names of loaded intents, and every intent has its
  place among the values of the intent label map.\<close>

definition pipeline_inv ::
  "(string \<times> labeled list) list \<Rightarrow> (string \<times> string list) list \<Rightarrow> state \<Rightarrow> bool" where
  "pipeline_inv ents ints st =
     (entities st = ents \<and> intents st = ints \<and>
      map snd (intents_label st) = map fst ints \<and>
      entries_ok (map fst ints) (\<lambda>slots. slots \<in> set (all_slots ents ints)) (filled_prompts st) \<and>
      entries_ok (map fst ints) (\<lambda>u. u \<in> set (all_expanded ents ints)) (premutated_prompts st) \<and>
      entries_ok (map fst ints) (\<lambda>l. l \<in> set (all_labeled ents ints)) (generated_prompts st) \<and>
      list_all (\<lambda>e. e \<in> set (map (assemble (prompt_intent e)) (all_labeled ents ints)))
        (dataset st))"

text \<open>Every group carries one id, at least 1, on all its pairs.\<close>

definition group_id :: "string \<times> labeled list \<Rightarrow> int" where
  "group_id entry = (case snd entry of [] \<Rightarrow> 1 | p # ps \<Rightarrow> snd p)"

definition ids_ok :: "(string \<times> labeled list) list \<Rightarrow> bool" where
  "ids_ok ents =
     list_all (\<lambda>entry. 1 \<le> group_id entry \<and> list_all (\<lambda>p. snd p = group_id entry) (snd entry))
       ents"

text \<open>Frames: what a stage leaves as it was.\<close>

definition only_filled_changed :: "state \<Rightarrow> state \<Rightarrow> bool" where
  "only_filled_changed st t = (t = st\<lparr>filled_prompts := filled_prompts t\<rparr>)"

text \<open>While the samples of an intent are filled, the intent keeps its list in
  \<open>filled_prompts\<close>.\<close>

definition filling :: "state \<Rightarrow> string \<Rightarrow> state \<Rightarrow> bool" where
  "filling st c t = (only_filled_changed st t \<and> map_of (filled_prompts t) c \<noteq> None)"


definition lines_of :: "(string \<Rightarrow> string list option) \<Rightarrow> string \<Rightarrow> string list" where
  "lines_of rd f = (case rd f of None \<Rightarrow> [] | Some ls \<Rightarrow> ls)"

section \<open>Example runs\<close>



definition tape_count :: "nat \<Rightarrow> nat" where
  "tape_count i = i"

text \<open>A file system in which files can be created in the directory \<open>dir\<close> and
  nowhere else.\<close>

definition writable_in :: "string \<Rightarrow> string \<Rightarrow> error option" where
  "writable_in dir p =
     (if take (Suc (length dir)) p = dir @ ''/'' then None else Some (FileNotFoundError p))"

text \<open>One entity file \<open>song.entity\<close> and one intent file \<open>play.intent\<close>.\<close>

definition song_env :: env where
  "song_env =
     \<lparr>isdir = (\<lambda>p. p = ''data''),
      glob = (\<lambda>pattern.
        if pattern = ''data/*/entities/*.entity'' then [''data/music/entities/song.entity'']
        else if pattern = ''data/*/intents/*.intent'' then [''data/music/intents/play.intent'']
        else []),
      readlines = (\<lambda>file.
        if file = ''data/music/entities/song.entity''
        then Some [''# songs\<newline>'', ''Yesterday\<newline>'', ''Let It Be\<newline>'']
        else if file = ''data/music/intents/play.intent''
        then Some [''play {song}\<newline>'']
        else None),
      open_write = writable_in ''data'',
      write_frame = writable_in ''data''\<rparr>"

definition song_state :: state where
  "song_state =
     (Dataset_init ''data'' 5 False)
       \<lparr>entities := [(''song'', [(''yesterday'', 1), (''let it be'', 1)])],
        entities_label := [(1, ''song'')],
        intents := [(''play'', [''play {song}''])],
        intents_label := [(0, ''play'')]\<rparr>"


text \<open>The same intent with a placeholder that names no loaded entity.\<close>

definition artist_env :: env where
  "artist_env =
     \<lparr>isdir = (\<lambda>p. p = ''data''),
      glob = (\<lambda>pattern.
        if pattern = ''data/*/entities/*.entity'' then [''data/music/entities/song.entity'']
        else if pattern = ''data/*/intents/*.intent'' then [''data/music/intents/play.intent'']
        else []),
      readlines = (\<lambda>file.
        if file = ''data/music/entities/song.entity'' then Some [''Yesterday\<newline>'']
        else if file = ''data/music/intents/play.intent'' then Some [''play {artist}\<newline>'']
        else None),
      open_write = writable_in ''data'',
      write_frame = writable_in ''data''\<rparr>"

definition artist_state :: state where
  "artist_state =
     (Dataset_init ''data'' 5 False)
       \<lparr>entities := [(''song'', [(''yesterday'', 1)])],
        entities_label := [(1, ''song'')],
        intents := [(''play'', [''play {artist}''])],
        intents_label := [(0, ''play'')]\<rparr>"

text \<open>No entities and one intent file \<open>greet.intent\<close> with the given lines.\<close>

definition greet_env :: "string list \<Rightarrow> env" where
  "greet_env ls =
     \<lparr>isdir = (\<lambda>p. p = ''data''),
      glob = (\<lambda>pattern.
        if pattern = ''data/*/intents/*.intent'' then [''data/chat/intents/greet.intent'']
        else []),
      readlines = (\<lambda>file.
        if file = ''data/chat/intents/greet.intent'' then Some ls else None),
      open_write = writable_in ''data'',
      write_frame = writable_in ''data''\<rparr>"

text \<open>A file system whose only directory is \<open>out\<close>.\<close>

definition out_env :: env where
  "out_env =
     \<lparr>isdir = (\<lambda>p. p = ''out''), glob = (\<lambda>pattern. []), readlines = (\<lambda>file. None),
      open_write = writable_in ''out'', write_frame = writable_in ''out''\<rparr>"

text \<open>Two skills that both have an entity file \<open>name.entity\<close>.\<close>

definition twice_env :: env where
  "twice_env =
     \<lparr>isdir = (\<lambda>p. p = ''data''),
      glob = (\<lambda>pattern.
        if pattern = ''data/*/entities/*.entity''
        then [''data/lights/entities/name.entity'', ''data/music/entities/name.entity'',
              ''data/music/entities/genre.entity'']
        else []),
      readlines = (\<lambda>file.
        if file = ''data/lights/entities/name.entity'' then Some [''Lamp\<newline>'']
        else if file = ''data/music/entities/name.entity'' then Some [''Yesterday\<newline>'']
        else if file = ''data/music/entities/genre.entity'' then Some [''Rock\<newline>'']
        else None),
      open_write = writable_in ''data'',
      write_frame = writable_in ''data''\<rparr>"

text \<open>An object after slot filling, with the one filled template of \<open>play {song}\<close>.\<close>

definition filled_state :: state where
  "filled_state =
     song_state\<lparr>filled_prompts :=
       [(''play'', [[[(''play'', 0)], [(''yesterday'', 1), (''let it be'', 1)]]])]\<rparr>"


section \<open>Words and joined texts\<close>

lemma wordlike_iff: "wordlike w \<longleftrightarrow> w \<noteq> [] \<and> (\<forall>c \<in> set w. \<not> is_space c)"
  by (simp add: wordlike_def list_all_iff)

lemma split_from_wordlike:
  "w \<in> set (split_from cur s) \<Longrightarrow> \<forall>c \<in> set cur. \<not> is_space c \<Longrightarrow> wordlike w"
proof (induction s arbitrary: cur)
  case Nil
  then show ?case by (auto simp: wordlike_iff split: if_splits)
next
  case (Cons c cs)
  show ?case
  proof (cases "is_space c")
    case True
    then show ?thesis using Cons.prems Cons.IH[of "[]"]
      by (auto simp: wordlike_iff split: if_splits)
  next
    case False
    then show ?thesis using Cons.prems Cons.IH[of "cur @ [c]"] by auto
  qed
qed

lemma split_ws_wordlike: "w \<in> set (split_ws s) \<Longrightarrow> wordlike w"
  using split_from_wordlike[of w "[]" s] by (simp add: split_ws_def)

lemma split_from_append:
  "\<forall>c \<in> set w. \<not> is_space c \<Longrightarrow> split_from cur (w @ s) = split_from (cur @ w) s"
  by (induction w arbitrary: cur) simp_all

lemma is_space_blank: "is_space (CHR 0x20)"
  by (simp add: is_space_def)

lemma split_from_join:
  "\<forall>w \<in> set ws. wordlike w \<Longrightarrow> split_from [] (join_space ws) = ws"
proof (induction ws rule: join_space.induct)
  case 1
  then show ?case by simp
next
  case (2 w)
  then have "\<forall>c \<in> set w. \<not> is_space c" and "w \<noteq> []" by (simp_all add: wordlike_iff)
  then show ?case using split_from_append[of w "[]" "[]"] by simp
next
  case (3 w v ws)
  then have w: "\<forall>c \<in> set w. \<not> is_space c" "w \<noteq> []" by (simp_all add: wordlike_iff)
  have "split_from [] (join_space (w # v # ws)) = split_from w (CHR 0x20 # join_space (v # ws))"
    using split_from_append[OF w(1), of "[]"] by simp
  also have "\<dots> = w # split_from [] (join_space (v # ws))"
    using w(2) by (simp add: is_space_blank)
  finally show ?case using 3 by simp
qed

lemma split_ws_join: "\<forall>w \<in> set ws. wordlike w \<Longrightarrow> split_ws (join_space ws) = ws"
  unfolding split_ws_def by (rule split_from_join)

lemma split_ws_of_word: "wordlike w \<Longrightarrow> split_ws w = [w]"
  using split_ws_join[of "[w]"] by simp

lemma split_sep_append:
  "\<forall>c \<in> set w. c \<noteq> sep \<Longrightarrow> split_sep sep cur (w @ s) = split_sep sep (cur @ w) s"
  by (induction w arbitrary: cur) simp_all

lemma wordlike_no_blank: "wordlike w \<Longrightarrow> \<forall>c \<in> set w. c \<noteq> CHR 0x20"
  using is_space_blank by (auto simp: wordlike_iff)

lemma split_sep_join:
  "\<forall>w \<in> set ws. wordlike w \<Longrightarrow> ws \<noteq> [] \<Longrightarrow> split_sep (CHR 0x20) [] (join_space ws) = ws"
proof (induction ws rule: join_space.induct)
  case 1
  then show ?case by simp
next
  case (2 w)
  then have "wordlike w" by simp
  then have "\<forall>c \<in> set w. c \<noteq> CHR 0x20" by (rule wordlike_no_blank)
  then show ?case using split_sep_append[of w "CHR 0x20" "[]" "[]"] by simp
next
  case (3 w v ws)
  from 3 have "wordlike w" by simp
  then have w: "\<forall>c \<in> set w. c \<noteq> CHR 0x20" by (rule wordlike_no_blank)
  have "split_sep (CHR 0x20) [] (join_space (w # v # ws)) =
          split_sep (CHR 0x20) w (CHR 0x20 # join_space (v # ws))"
    using split_sep_append[OF w, of "[]"] by simp
  also have "\<dots> = w # split_sep (CHR 0x20) [] (join_space (v # ws))" by simp
  finally show ?case using 3 by simp
qed

lemma split_single_space_join:
  assumes "\<forall>w \<in> set ws. wordlike w"
  shows "filter (\<lambda>w. w \<noteq> []) (split_single_space (join_space ws)) = ws"
proof (cases "ws = []")
  case True
  then show ?thesis by (simp add: split_single_space_def)
next
  case False
  have "filter (\<lambda>w. w \<noteq> []) ws = ws" using assms by (auto simp: wordlike_iff filter_id_conv)
  then show ?thesis using split_sep_join[OF assms False] by (simp add: split_single_space_def)
qed

section \<open>Loops and dictionaries\<close>

lemma outcome_state_and_then:
  assumes "P (outcome_state r)" and "\<And>s. P s \<Longrightarrow> P (outcome_state (f s))"
  shows "P (outcome_state (and_then r f))"
  using assms by (cases r) simp_all

text \<open>A property that every pass of a loop keeps, whether the pass returns or raises,
  holds of the state the loop ends in.\<close>

lemma for_each_invariant:
  assumes "I s" and "\<And>x t. x \<in> set xs \<Longrightarrow> I t \<Longrightarrow> I (outcome_state (body x t))"
  shows "I (outcome_state (for_each body xs s))"
  using assms
proof (induction xs arbitrary: s)
  case Nil
  then show ?case by simp
next
  case (Cons x xs)
  have step: "I (outcome_state (body x s))" using Cons.prems by simp
  show ?case
  proof (cases "body x s")
    case (Done t)
    then show ?thesis using step Cons.IH[of t] Cons.prems(2) by simp
  next
    case (Raised e t)
    then show ?thesis using step by simp
  qed
qed

text \<open>A loop that returns has run every pass to its end, and a loop that raises has
  a pass that raised.\<close>

lemma for_each_Done_body:
  assumes "for_each body xs s = Done s'" and "x \<in> set xs" and "I s"
    and "\<And>y t. y \<in> set xs \<Longrightarrow> I t \<Longrightarrow> I (outcome_state (body y t))"
  shows "\<exists>t t'. I t \<and> body x t = Done t'"
  using assms
proof (induction xs arbitrary: s)
  case Nil
  then show ?case by simp
next
  case (Cons y ys)
  show ?case
  proof (cases "body y s")
    case (Done t)
    have It: "I t" using Cons.prems(3) Cons.prems(4)[of y s] Done by simp
    show ?thesis
    proof (cases "x = y")
      case True
      then show ?thesis using Done Cons.prems(3) by blast
    next
      case False
      then have "x \<in> set ys" using Cons.prems(2) by simp
      moreover have "for_each body ys t = Done s'" using Cons.prems(1) Done by simp
      ultimately show ?thesis using Cons.IH[of t] It Cons.prems(4) by simp
    qed
  next
    case (Raised e t)
    then show ?thesis using Cons.prems(1) by simp
  qed
qed

lemma for_each_Raised_body:
  assumes "for_each body xs s = Raised e s'" and "I s"
    and "\<And>y t. y \<in> set xs \<Longrightarrow> I t \<Longrightarrow> I (outcome_state (body y t))"
  shows "\<exists>y t. y \<in> set xs \<and> I t \<and> body y t = Raised e s'"
  using assms
proof (induction xs arbitrary: s)
  case Nil
  then show ?case by simp
next
  case (Cons y ys)
  show ?case
  proof (cases "body y s")
    case (Done t)
    have It: "I t" using Cons.prems(2) Cons.prems(3)[of y s] Done by simp
    have "for_each body ys t = Raised e s'" using Cons.prems(1) Done by simp
    then obtain z u where "z \<in> set ys" "I u" "body z u = Raised e s'"
      using Cons.IH[of t] It Cons.prems(3) by auto
    then show ?thesis by auto
  next
    case (Raised e' t)
    then have "body y s = Raised e s'" using Cons.prems(1) by simp
    then show ?thesis using Cons.prems(2) by auto
  qed
qed


lemma set_dict_set: "set (dict_set d k v) \<subseteq> insert (k, v) (set d)"
  by (induction d) auto

lemma dict_set_fresh: "k \<notin> fst ` set d \<Longrightarrow> dict_set d k v = d @ [(k, v)]"
  by (induction d) auto

lemma index_of_member: "x \<in> set xs \<Longrightarrow> \<exists>i. index_of xs x = Some i"
  by (induction xs) auto

lemma entries_ok_iff:
  "entries_ok keys P d \<longleftrightarrow>
     (\<forall>entry \<in> set d. fst entry \<in> set keys \<and> (\<forall>v \<in> set (snd entry). P v))"
  by (simp add: entries_ok_def list_all_iff)

lemma entries_ok_dict_set:
  "entries_ok keys P d \<Longrightarrow> k \<in> set keys \<Longrightarrow> \<forall>v \<in> set vs. P v \<Longrightarrow>
   entries_ok keys P (dict_set d k vs)"
  unfolding entries_ok_iff using set_dict_set[of d k vs] by fastforce

lemma map_of_dict_set_same: "map_of (dict_set d k v) k = Some v"
  by (induction d) auto

lemma map_of_dict_set_other: "k' \<noteq> k \<Longrightarrow> map_of (dict_set d k v) k' = map_of d k'"
  by (induction d) auto

lemma keys_dict_set:
  "map fst (dict_set d k v) = (if k \<in> set (map fst d) then map fst d else map fst d @ [k])"
  by (induction d) auto

lemma distinct_keys_dict_set:
  "distinct (map fst d) \<Longrightarrow> distinct (map fst (dict_set d k v))"
  by (simp add: keys_dict_set del: set_map)

text \<open>A loop of assignments \<open>d[key(x)] = value(x)\<close> over entries with pairwise distinct
  keys leaves every entry's value under its key.\<close>

lemma map_of_fold_dict_set_other:
  "k \<notin> fst ` set es \<Longrightarrow>
   map_of (fold (\<lambda>e d. dict_set d (fst e) (f e)) es d) k = map_of d k"
  by (induction es arbitrary: d) (auto simp: map_of_dict_set_other)

lemma map_of_fold_dict_set:
  "distinct (map fst es) \<Longrightarrow> e \<in> set es \<Longrightarrow>
   map_of (fold (\<lambda>e d. dict_set d (fst e) (f e)) es d) (fst e) = Some (f e)"
proof (induction es arbitrary: d)
  case Nil
  then show ?case by simp
next
  case (Cons x es)
  show ?case
  proof (cases "e = x")
    case True
    have "fst x \<notin> fst ` set es" using Cons.prems(1) by simp
    then have "map_of (fold (\<lambda>e d. dict_set d (fst e) (f e)) es (dict_set d (fst x) (f x))) (fst x) =
               map_of (dict_set d (fst x) (f x)) (fst x)"
      by (rule map_of_fold_dict_set_other)
    then show ?thesis using True by (simp add: map_of_dict_set_same)
  next
    case False
    then have "e \<in> set es" using Cons.prems(2) by simp
    moreover have "distinct (map fst es)" using Cons.prems(1) by simp
    ultimately show ?thesis using Cons.IH by simp
  qed
qed


section \<open>The loader\<close>

lemma map_upt_shift: "map f [0..<Suc n] = f 0 # map (\<lambda>j. f (Suc j)) [0..<n]"
  by (simp add: map_upt_Suc del: upt_Suc)

text \<open>The keys of a label map are fresh at every step, so the map lists the keys of
  \<open>data\<close> in their order, numbered from \<open>start_at\<close>.\<close>

lemma generate_mapping_loop_fresh:
  "\<forall>p \<in> set labels. fst p < counter \<Longrightarrow>
   generate_mapping_loop items counter labels =
     labels @ map (\<lambda>j. (counter + int j, items ! j)) [0..<length items]"
proof (induction items arbitrary: counter labels)
  case Nil
  then show ?case by simp
next
  case (Cons item items)
  have fresh: "counter \<notin> fst ` set labels" using Cons.prems by auto
  have "\<forall>p \<in> set (labels @ [(counter, item)]). fst p < counter + 1"
    using Cons.prems by auto
  then have "generate_mapping_loop items (counter + 1) (labels @ [(counter, item)]) =
        (labels @ [(counter, item)]) @
          map (\<lambda>j. (counter + 1 + int j, items ! j)) [0..<length items]"
    by (rule Cons.IH)
  moreover have "map (\<lambda>j. (counter + int j, (item # items) ! j)) [0..<length (item # items)] =
        (counter, item) # map (\<lambda>j. (counter + 1 + int j, items ! j)) [0..<length items]"
    using map_upt_shift[of "\<lambda>j. (counter + int j, (item # items) ! j)" "length items"]
    by (simp add: add.commute add.left_commute del: upt_Suc)
  ultimately show ?case by (simp add: dict_set_fresh[OF fresh] del: upt_Suc)
qed

lemma generate_mapping_positions:
  "generate_mapping data start_at =
     map (\<lambda>j. (start_at + int j, fst (data ! j))) [0..<length data]"
  using generate_mapping_loop_fresh[of "[]" start_at "map fst data"]
  by (simp add: generate_mapping_def)

lemma generate_mapping_values: "map snd (generate_mapping data start_at) = map fst data"
proof -
  have "map snd (generate_mapping data start_at) = map (\<lambda>j. fst (data ! j)) [0..<length data]"
    by (simp add: generate_mapping_positions comp_def)
  also have "\<dots> = map fst data"
    by (rule nth_equalityI) simp_all
  finally show ?thesis .
qed

text \<open>With pairwise distinct stems every file opens a new key, so the loaded
  dictionary lists the files in their order, the \<open>j\<close>-th with the id \<open>start_id + j\<close>.\<close>

lemma load_raw_loop_distinct:
  "distinct (map stem files) \<Longrightarrow> \<forall>f \<in> set files. stem f \<notin> fst ` set data \<Longrightarrow>
   load_raw_loop rd mk files start_id data = Inr ents \<Longrightarrow>
   ents = data @ map (\<lambda>j. (stem (files ! j),
                        read_samples mk (start_id + int j) (lines_of rd (files ! j))))
                   [0..<length files]"
proof (induction files arbitrary: start_id data)
  case Nil
  then show ?case by simp
next
  case (Cons f files)
  from Cons.prems(3) obtain ls where ls: "rd f = Some ls" by (auto split: option.splits)
  let ?entry = "(stem f, read_samples mk start_id ls)"
  have fresh: "stem f \<notin> fst ` set data" using Cons.prems(2) by simp
  have next_data: "dict_set data (stem f) (read_samples mk start_id ls) = data @ [?entry]"
    using fresh by (rule dict_set_fresh)
  have run: "load_raw_loop rd mk files (start_id + 1) (data @ [?entry]) = Inr ents"
    using Cons.prems(3) ls next_data by simp
  have d: "distinct (map stem files)" using Cons.prems(1) by simp
  have nf: "\<forall>g \<in> set files. stem g \<notin> fst ` set (data @ [?entry])"
    using Cons.prems(1,2) by (auto simp: image_iff)
  have "ents = (data @ [?entry]) @
          map (\<lambda>j. (stem (files ! j),
                 read_samples mk (start_id + 1 + int j) (lines_of rd (files ! j))))
            [0..<length files]"
    using Cons.IH[OF d nf run] .
  moreover have "map (\<lambda>j. (stem ((f # files) ! j),
                   read_samples mk (start_id + int j) (lines_of rd ((f # files) ! j))))
              [0..<length (f # files)] =
        ?entry # map (\<lambda>j. (stem (files ! j),
                 read_samples mk (start_id + 1 + int j) (lines_of rd (files ! j))))
            [0..<length files]"
    using map_upt_shift[of "\<lambda>j. (stem ((f # files) ! j),
                   read_samples mk (start_id + int j) (lines_of rd ((f # files) ! j)))"
                "length files"] ls
    by (simp add: lines_of_def add.commute add.left_commute del: upt_Suc)
  ultimately show ?case by (simp del: upt_Suc)
qed

text \<open>
  Where no two entity files share a stem, the two numberings agree: the \<open>j\<close>-th
  group stands under the key \<open>1 + j\<close> of the entity label map, and every pair of the
  group carries the id \<open>1 + j\<close>.
\<close>

lemma distinct_stems_ids_match_keys:
  assumes "load_raw_ids rd files = Inr ents" and "distinct (map stem files)"
  shows "length ents = length files \<and>
         length (generate_mapping ents 1) = length files \<and>
         (\<forall>j < length files.
            generate_mapping ents 1 ! j = (1 + int j, stem (files ! j)) \<and>
            fst (ents ! j) = stem (files ! j) \<and>
            (\<forall>p \<in> set (snd (ents ! j)). snd p = 1 + int j))"
proof -
  have ents: "ents = map (\<lambda>j. (stem (files ! j),
                        read_samples (\<lambda>s i. (s, i)) (1 + int j) (lines_of rd (files ! j))))
                   [0..<length files]"
    using load_raw_loop_distinct[of files "[]" rd "\<lambda>s i. (s, i)" 1 ents] assms
    by (simp add: load_raw_ids_def)
  then have len: "length ents = length files" by simp
  have "\<forall>j < length files. fst (ents ! j) = stem (files ! j) \<and>
            (\<forall>p \<in> set (snd (ents ! j)). snd p = 1 + int j)"
    using ents by (auto simp: read_samples_def)
  then show ?thesis using len by (simp add: generate_mapping_positions)
qed

lemma ids_ok_iff:
  "ids_ok ents \<longleftrightarrow>
     (\<forall>entry \<in> set ents. 1 \<le> group_id entry \<and> (\<forall>p \<in> set (snd entry). snd p = group_id entry))"
  by (simp add: ids_ok_def list_all_iff)

lemma ids_okD:
  assumes "ids_ok ents" and "entry \<in> set ents"
  shows "\<exists>sid \<ge> 1. \<forall>p \<in> set (snd entry). snd p = sid"
  using assms unfolding ids_ok_iff by blast

lemma group_id_new:
  assumes "1 \<le> sid" and "\<forall>p \<in> set vs. snd p = sid"
  shows "1 \<le> group_id (k, vs) \<and> (\<forall>p \<in> set (snd (k, vs)). snd p = group_id (k, vs))"
proof (cases vs)
  case Nil
  then show ?thesis by (simp add: group_id_def)
next
  case (Cons p ps)
  then have "group_id (k, vs) = sid" using assms(2) by (simp add: group_id_def)
  then show ?thesis using assms by simp
qed

lemma ids_ok_dict_set:
  assumes "ids_ok data" and "1 \<le> sid" and "\<forall>p \<in> set vs. snd p = sid"
  shows "ids_ok (dict_set data k vs)"
  unfolding ids_ok_iff
proof
  fix entry
  assume "entry \<in> set (dict_set data k vs)"
  then have "entry = (k, vs) \<or> entry \<in> set data" using set_dict_set[of data k vs] by auto
  then show "1 \<le> group_id entry \<and> (\<forall>p \<in> set (snd entry). snd p = group_id entry)"
  proof
    assume "entry = (k, vs)"
    then show ?thesis using group_id_new[OF assms(2,3)] by simp
  next
    assume "entry \<in> set data"
    then show ?thesis using assms(1) unfolding ids_ok_iff by blast
  qed
qed

lemma load_raw_loop_ids_ok:
  "load_raw_loop rd (\<lambda>s i. (s, i)) files start_id data = Inr ents \<Longrightarrow>
   1 \<le> start_id \<Longrightarrow> ids_ok data \<Longrightarrow> ids_ok ents"
proof (induction files arbitrary: start_id data)
  case Nil
  then show ?case by simp
next
  case (Cons f files)
  from Cons.prems(1) obtain ls where ls: "rd f = Some ls"
    by (auto split: option.splits)
  have "ids_ok (dict_set data (stem f) (read_samples (\<lambda>s i. (s, i)) start_id ls))"
    using Cons.prems(2,3) by (intro ids_ok_dict_set[where sid = start_id])
      (auto simp: read_samples_def)
  moreover have "load_raw_loop rd (\<lambda>s i. (s, i)) files (start_id + 1)
      (dict_set data (stem f) (read_samples (\<lambda>s i. (s, i)) start_id ls)) = Inr ents"
    using Cons.prems(1) ls by simp
  ultimately show ?case using Cons.IH Cons.prems(2) by simp
qed

lemma load_ids_ok:
  assumes "load ev (Dataset_init path n dup) = Done st"
  shows "ids_ok (entities st)"
proof (cases "isdir ev path")
  case False
  then have "entities st = []" using assms by (auto simp: load_def Dataset_init_def)
  then show ?thesis by (simp add: ids_ok_def)
next
  case True
  then obtain ents where
    ents: "load_raw_ids (readlines ev) (glob ev (path @ ''/*/entities/*.entity'')) = Inr ents"
    and st: "entities st = ents"
    using assms by (auto simp: load_def Dataset_init_def Let_def split: sum.splits)
  have "ids_ok []" by (simp add: ids_ok_def)
  then have "ids_ok ents"
    using load_raw_loop_ids_ok[of "readlines ev" _ 1 "[]" ents] ents
    by (simp add: load_raw_ids_def)
  then show ?thesis using st by simp
qed

lemma load_frame:
  "load ev (Dataset_init path n dup) = Done st \<Longrightarrow>
   dataset st = [] \<and> written st = [] \<and> dataset_path st = path"
  by (auto simp: load_def Dataset_init_def Let_def split: if_splits sum.splits)

section \<open>The slot filler\<close>

lemma fill_words_positions:
  "fill_words ents toks = Inr slots \<Longrightarrow>
   length slots = length toks \<and> (\<forall>i < length toks. fill_word ents (toks ! i) = Inr (slots ! i))"
proof (induction toks arbitrary: slots)
  case Nil
  then show ?case by simp
next
  case (Cons tok toks)
  from Cons.prems obtain slot rest where slot: "fill_word ents tok = Inr slot"
    and rest: "fill_words ents toks = Inr rest" and slots: "slots = slot # rest"
    by (auto split: sum.splits)
  show ?case using Cons.IH[OF rest] slot slots by (auto simp: nth_Cons split: nat.splits)
qed

lemma fill_words_all_filled:
  "fill_words ents toks = Inr slots \<Longrightarrow> tok \<in> set toks \<Longrightarrow> \<exists>slot. fill_word ents tok = Inr slot"
  by (induction toks arbitrary: slots) (auto split: sum.splits)

lemma fill_words_error:
  "fill_words ents toks = Inl e \<Longrightarrow> \<exists>name. e = KeyError name \<and> map_of ents name = None"
proof (induction toks)
  case Nil
  then show ?case by simp
next
  case (Cons tok toks)
  show ?case
  proof (cases "fill_word ents tok")
    case (Inl e')
    then have "e = e'" using Cons.prems by simp
    then show ?thesis using Inl by (auto simp: fill_word_def split: if_splits option.splits)
  next
    case (Inr slot)
    then have "fill_words ents toks = Inl e" using Cons.prems by (auto split: sum.splits)
    then show ?thesis by (rule Cons.IH)
  qed
qed

lemma fill_word_placeholder:
  "fill_word ents tok = Inr slot \<Longrightarrow> is_placeholder tok \<Longrightarrow>
   map_of ents (strip_braces tok) = Some slot"
  by (auto simp: fill_word_def split: option.splits)

lemma fill_word_literal:
  "fill_word ents tok = Inr slot \<Longrightarrow> \<not> is_placeholder tok \<Longrightarrow> slot = [(tok, 0)]"
  by (auto simp: fill_word_def)

text \<open>Slot filling touches no field but \<open>filled_prompts\<close>, also when it raises.\<close>

lemma only_filled_changed_iff:
  "only_filled_changed st t \<longleftrightarrow> (\<exists>filled. t = st\<lparr>filled_prompts := filled\<rparr>)"
proof
  assume "only_filled_changed st t"
  then show "\<exists>filled. t = st\<lparr>filled_prompts := filled\<rparr>"
    unfolding only_filled_changed_def by (rule exI)
next
  assume "\<exists>filled. t = st\<lparr>filled_prompts := filled\<rparr>"
  then obtain filled where "t = st\<lparr>filled_prompts := filled\<rparr>" by blast
  then show "only_filled_changed st t" by (simp add: only_filled_changed_def)
qed

lemma only_filled_changed_refl: "only_filled_changed st st"
  by (simp add: only_filled_changed_def)

lemma only_filled_changed_entities: "only_filled_changed st t \<Longrightarrow> entities t = entities st"
  by (auto simp: only_filled_changed_iff)

lemma slot_filling_sample_frame:
  "only_filled_changed st t \<Longrightarrow>
   only_filled_changed st (outcome_state (slot_filling_sample c sample t))"
  by (auto simp: only_filled_changed_iff slot_filling_sample_def split: sum.splits option.splits)

lemma slot_filling_sample_filling:
  assumes "filling st c t"
  shows "filling st c (outcome_state (slot_filling_sample c sample t))"
proof -
  have "map_of (filled_prompts (outcome_state (slot_filling_sample c sample t))) c \<noteq> None"
    using assms
    by (auto simp: filling_def slot_filling_sample_def map_of_dict_set_same
             split: sum.splits option.splits)
  then show ?thesis using assms slot_filling_sample_frame by (simp add: filling_def)
qed

lemma slot_filling_intent_start:
  assumes "only_filled_changed st t"
  shows "filling st (fst entry) (t\<lparr>filled_prompts := dict_set (filled_prompts t) (fst entry) []\<rparr>)"
  using assms by (auto simp: filling_def only_filled_changed_iff map_of_dict_set_same)

lemma slot_filling_intent_frame:
  assumes "only_filled_changed st t"
  shows "only_filled_changed st (outcome_state (slot_filling_intent entry t))"
proof -
  have "filling st (fst entry) (outcome_state (slot_filling_intent entry t))"
    unfolding slot_filling_intent_def
    using slot_filling_intent_start[OF assms]
  proof (rule for_each_invariant)
    fix x u
    assume "filling st (fst entry) u"
    then show "filling st (fst entry) (outcome_state (slot_filling_sample (fst entry) x u))"
      by (rule slot_filling_sample_filling)
  qed
  then show ?thesis by (simp add: filling_def)
qed

lemma slot_filling_sample_Done:
  "slot_filling_sample c sample t = Done t' \<Longrightarrow> \<exists>slots. fill_sample (entities t) sample = Inr slots"
  by (auto simp: slot_filling_sample_def split: sum.splits option.splits)

lemma slot_filling_sample_Raised:
  "slot_filling_sample c sample t = Raised e t' \<Longrightarrow> map_of (filled_prompts t) c \<noteq> None \<Longrightarrow>
   t' = t \<and> fill_sample (entities t) sample = Inl e"
  by (auto simp: slot_filling_sample_def split: sum.splits option.splits)

lemma slot_filling_not_Done:
  assumes "entry \<in> set (intents st)" and "t \<in> set (snd entry)" and "tok \<in> set (split_ws t)"
    and "is_placeholder tok" and "map_of (entities st) (strip_braces tok) = None"
  shows "slot_filling st \<noteq> Done s'"
proof
  assume "slot_filling st = Done s'"
  then have "for_each slot_filling_intent (intents st) st = Done s'"
    by (simp add: slot_filling_def)
  then obtain u u' where u: "only_filled_changed st u" "slot_filling_intent entry u = Done u'"
    using for_each_Done_body[where I = "only_filled_changed st" and x = entry]
      assms(1) only_filled_changed_refl slot_filling_intent_frame by blast
  let ?u0 = "u\<lparr>filled_prompts := dict_set (filled_prompts u) (fst entry) []\<rparr>"
  have u0: "only_filled_changed st ?u0" using u(1) by (auto simp: only_filled_changed_iff)
  have "for_each (slot_filling_sample (fst entry)) (snd entry) ?u0 = Done u'"
    using u(2) by (simp add: slot_filling_intent_def)
  then obtain v v' where v: "only_filled_changed st v"
    "slot_filling_sample (fst entry) t v = Done v'"
    using for_each_Done_body[where I = "only_filled_changed st" and x = t]
      assms(2) u0 slot_filling_sample_frame by blast
  then obtain slots where "fill_sample (entities st) t = Inr slots"
    using slot_filling_sample_Done only_filled_changed_entities by metis
  then have "fill_words (entities st) (split_ws t) = Inr slots"
    by (simp add: fill_sample_def)
  then obtain slot where "fill_word (entities st) tok = Inr slot"
    using fill_words_all_filled[OF _ assms(3)] by blast
  then show False using assms(4,5) by (simp add: fill_word_def)
qed

lemma slot_filling_Raised:
  assumes "slot_filling st = Raised e s'"
  shows "only_filled_changed st s' \<and> (\<exists>name. e = KeyError name \<and> map_of (entities st) name = None)"
proof -
  have "for_each slot_filling_intent (intents st) st = Raised e s'"
    using assms by (simp add: slot_filling_def)
  then obtain entry u where u: "only_filled_changed st u" "slot_filling_intent entry u = Raised e s'"
    using for_each_Raised_body[where I = "only_filled_changed st"]
      only_filled_changed_refl slot_filling_intent_frame by blast
  let ?u0 = "u\<lparr>filled_prompts := dict_set (filled_prompts u) (fst entry) []\<rparr>"
  have u0: "filling st (fst entry) ?u0" using u(1) by (rule slot_filling_intent_start)
  have "for_each (slot_filling_sample (fst entry)) (snd entry) ?u0 = Raised e s'"
    using u(2) by (simp add: slot_filling_intent_def)
  then obtain t v where v: "filling st (fst entry) v"
    "slot_filling_sample (fst entry) t v = Raised e s'"
    using for_each_Raised_body[where I = "filling st (fst entry)"]
      u0 slot_filling_sample_filling by blast
  have key: "map_of (filled_prompts v) (fst entry) \<noteq> None" and frame: "only_filled_changed st v"
    using v(1) by (simp_all add: filling_def)
  have "s' = v" and "fill_sample (entities st) t = Inl e"
    using slot_filling_sample_Raised[OF v(2) key] only_filled_changed_entities[OF frame]
    by simp_all
  then show ?thesis using frame fill_words_error by (auto simp: fill_sample_def)
qed

text \<open>
  C6. If a template of a loaded intent has a token \<open>{name}\<close> whose name is not a key
  of the entities, slot filling raises KeyError for a name that is not a key, and the
  exception leaves \<open>genrate_dataset\<close> at once: no later stage runs, the object differs
  from before in \<open>filled_prompts\<close> only, so no example is added for any intent. In
  the script the exception ends the run before \<open>save\<close>: no example and no file.
\<close>

theorem unknown_entity_aborts_run:
  assumes "entry \<in> set (intents st)" and "t \<in> set (snd entry)" and "tok \<in> set (split_ws t)"
    and "is_placeholder tok" and "map_of (entities st) (strip_braces tok) = None"
  shows "\<exists>name filled.
           map_of (entities st) name = None \<and>
           slot_filling st = Raised (KeyError name) (st\<lparr>filled_prompts := filled\<rparr>) \<and>
           genrate_dataset rnd st = Raised (KeyError name) (st\<lparr>filled_prompts := filled\<rparr>) \<and>
           dataset (st\<lparr>filled_prompts := filled\<rparr>) = dataset st \<and>
           (load ev (Dataset_init path n dup) = Done st \<longrightarrow>
              script ev rnd path n dup = Raised (KeyError name) (st\<lparr>filled_prompts := filled\<rparr>) \<and>
              dataset st = [] \<and> written st = [])"
proof -
  obtain e s' where r: "slot_filling st = Raised e s'"
    using slot_filling_not_Done[OF assms] by (cases "slot_filling st") auto
  obtain name filled where n: "e = KeyError name" "map_of (entities st) name = None"
    and f: "s' = st\<lparr>filled_prompts := filled\<rparr>"
    using slot_filling_Raised[OF r] by (auto simp: only_filled_changed_iff)
  have g: "genrate_dataset rnd st = Raised (KeyError name) (st\<lparr>filled_prompts := filled\<rparr>)"
    using r n(1) f by (simp add: genrate_dataset_def)
  have "load ev (Dataset_init path n dup) = Done st \<longrightarrow>
          script ev rnd path n dup = Raised (KeyError name) (st\<lparr>filled_prompts := filled\<rparr>) \<and>
          dataset st = [] \<and> written st = []"
    using g load_frame[of ev path n dup st] by (simp add: script_def)
  then show ?thesis using r n f g by auto
qed

lemma artist_load: "load artist_env (Dataset_init ''data'' 5 False) = Done artist_state"
  by code_simp

theorem unknown_entity_aborts_run_witness:
  "\<exists>name filled.
     map_of (entities artist_state) name = None \<and>
     slot_filling artist_state = Raised (KeyError name) (artist_state\<lparr>filled_prompts := filled\<rparr>) \<and>
     genrate_dataset tape_count artist_state =
       Raised (KeyError name) (artist_state\<lparr>filled_prompts := filled\<rparr>) \<and>
     script artist_env tape_count ''data'' 5 False =
       Raised (KeyError name) (artist_state\<lparr>filled_prompts := filled\<rparr>) \<and>
     dataset artist_state = [] \<and> written artist_state = []"
proof -
  have 1: "(''play'', [''play {artist}'']) \<in> set (intents artist_state)" by code_simp
  have 2: "''play {artist}'' \<in> set (snd (''play'', [''play {artist}'']))" by simp
  have 3: "''{artist}'' \<in> set (split_ws ''play {artist}'')" by code_simp
  have 4: "is_placeholder ''{artist}''" by code_simp
  have 5: "map_of (entities artist_state) (strip_braces ''{artist}'') = None" by code_simp
  show ?thesis
    using unknown_entity_aborts_run[OF 1 2 3 4 5, of tape_count artist_env "''data''" 5 False]
      artist_load by auto
qed

section \<open>The permutation expander\<close>

lemma length_itertools_product:
  "length (itertools_product slots) = prod_list (map length slots)"
  by (induction slots) (simp_all add: length_concat comp_def sum_list_triv)

lemma itertools_product_iff:
  "u \<in> set (itertools_product slots) \<longleftrightarrow>
     length u = length slots \<and> (\<forall>i < length slots. u ! i \<in> set (slots ! i))"
proof (induction slots arbitrary: u)
  case Nil
  then show ?case by simp
next
  case (Cons slot slots)
  show ?case
  proof (cases u)
    case Nil
    then show ?thesis by auto
  next
    case (Cons x rest)
    have "u \<in> set (itertools_product (slot # slots)) \<longleftrightarrow>
            x \<in> set slot \<and> rest \<in> set (itertools_product slots)"
      using Cons by auto
    also have "\<dots> \<longleftrightarrow> x \<in> set slot \<and> length rest = length slots \<and>
                 (\<forall>i < length slots. rest ! i \<in> set (slots ! i))"
      using Cons.IH by simp
    also have "\<dots> \<longleftrightarrow> length u = length (slot # slots) \<and>
                 (\<forall>i < length (slot # slots). u ! i \<in> set ((slot # slots) ! i))"
      using Cons by (auto simp: nth_Cons split: nat.splits)
    finally show ?thesis .
  qed
qed

lemma extend_permutations_concat:
  "extend_permutations samples permutations =
     permutations @ concat (map itertools_product samples)"
  by (induction samples arbitrary: permutations) simp_all

text \<open>The stage is a loop of assignments to \<open>premutated_prompts\<close> and cannot raise.\<close>

lemma permutation_category_Done:
  "permutation_category (category, samples) st =
     Done (st\<lparr>premutated_prompts :=
       dict_set (premutated_prompts st) category (concat (map itertools_product samples))\<rparr>)"
  by (simp add: permutation_category_def extend_permutations_concat)

lemma permutation_loop_Done:
  "for_each permutation_category es s =
     Done (s\<lparr>premutated_prompts :=
       fold (\<lambda>e d. dict_set d (fst e) (concat (map itertools_product (snd e)))) es
         (premutated_prompts s)\<rparr>)"
proof (induction es arbitrary: s)
  case Nil
  show ?case by simp
next
  case (Cons e es)
  have "permutation_category e s =
          Done (s\<lparr>premutated_prompts :=
            dict_set (premutated_prompts s) (fst e) (concat (map itertools_product (snd e)))\<rparr>)"
    using permutation_category_Done[of "fst e" "snd e" s] by simp
  then show ?case using Cons.IH by simp
qed

lemma permutation_generation_stores:
  assumes "distinct (map fst (filled_prompts st))"
    and "(category, samples) \<in> set (filled_prompts st)"
  shows "\<exists>st'. permutation_generation st = Done st' \<and>
           map_of (premutated_prompts st') category =
             Some (concat (map itertools_product samples))"
proof -
  let ?f = "\<lambda>e :: string \<times> labeled list list list. concat (map itertools_product (snd e))"
  have "map_of (fold (\<lambda>e d. dict_set d (fst e) (?f e)) (filled_prompts st)
                  (premutated_prompts st)) (fst (category, samples)) =
          Some (?f (category, samples))"
    using assms by (rule map_of_fold_dict_set)
  then show ?thesis
    by (simp add: permutation_generation_def permutation_loop_Done)
qed

text \<open>In a run the keys of \<open>filled_prompts\<close> are pairwise distinct, as the keys of a
  dictionary are.\<close>

lemma slot_filling_keys_distinct:
  assumes "distinct (map fst (filled_prompts st))"
  shows "distinct (map fst (filled_prompts (outcome_state (slot_filling st))))"
  unfolding slot_filling_def
  using assms
proof (rule for_each_invariant[where I = "\<lambda>t :: state. distinct (map fst (filled_prompts t))"])
  fix x and t :: state
  assume t: "distinct (map fst (filled_prompts t))"
  show "distinct (map fst (filled_prompts (outcome_state (slot_filling_intent x t))))"
    unfolding slot_filling_intent_def
  proof (rule for_each_invariant[where I = "\<lambda>t :: state. distinct (map fst (filled_prompts t))"])
    show "distinct (map fst (filled_prompts
            (t\<lparr>filled_prompts := dict_set (filled_prompts t) (fst x) []\<rparr>)))"
      using t by (simp add: distinct_keys_dict_set del: set_map)
  next
    fix y and u :: state
    assume "distinct (map fst (filled_prompts u))"
    then show "distinct (map fst (filled_prompts
                 (outcome_state (slot_filling_sample (fst x) y u))))"
      by (auto simp: slot_filling_sample_def distinct_keys_dict_set
               split: option.splits sum.splits simp del: set_map)
  qed
qed

text \<open>
  C1. The pass of the expander over a category stores, under the category's name in
  \<open>premutated_prompts\<close>, the concatenation of the products of the category's filled
  templates, and the whole stage returns with that list under the name of every
  category of \<open>filled_prompts\<close> (whose keys are pairwise distinct, as a dictionary's
  are). For every filled template with slots of sizes \<open>n_1 .. n_k\<close> the product has
  exactly \<open>n_1 * ... * n_k\<close> utterances, and the utterances are exactly the sequences
  of \<open>k\<close> pairs whose \<open>i\<close>-th pair is an element of the \<open>i\<close>-th slot.
\<close>

theorem expander_product_count:
  "extend_permutations samples [] = concat (map itertools_product samples) \<and>
   permutation_category (category, samples) st =
     Done (st\<lparr>premutated_prompts :=
       dict_set (premutated_prompts st) category (concat (map itertools_product samples))\<rparr>) \<and>
   (distinct (map fst (filled_prompts st)) \<and> (category, samples) \<in> set (filled_prompts st) \<longrightarrow>
      (\<exists>st'. permutation_generation st = Done st' \<and>
         map_of (premutated_prompts st') category =
           Some (concat (map itertools_product samples)))) \<and>
   (\<forall>slots \<in> set samples.
      length (itertools_product slots) = prod_list (map length slots) \<and>
      (\<forall>u. u \<in> set (itertools_product slots) \<longleftrightarrow>
             length u = length slots \<and> (\<forall>i < length slots. u ! i \<in> set (slots ! i))))"
proof -
  have "extend_permutations samples [] = concat (map itertools_product samples)"
    by (simp add: extend_permutations_concat)
  moreover have "\<forall>slots \<in> set samples.
      length (itertools_product slots) = prod_list (map length slots) \<and>
      (\<forall>u. u \<in> set (itertools_product slots) \<longleftrightarrow>
             length u = length slots \<and> (\<forall>i < length slots. u ! i \<in> set (slots ! i)))"
    using itertools_product_iff by (auto simp: length_itertools_product)
  ultimately show ?thesis
    using permutation_category_Done[of category samples st]
      permutation_generation_stores[of st category samples]
    by blast
qed

theorem expander_product_count_witness:
  "permutation_generation filled_state =
     Done (filled_state\<lparr>premutated_prompts :=
       [(''play'', [[(''play'', 0), (''yesterday'', 1)], [(''play'', 0), (''let it be'', 1)]])]\<rparr>) \<and>
   (\<exists>st'. permutation_generation filled_state = Done st' \<and>
      map_of (premutated_prompts st') ''play'' =
        Some (concat (map itertools_product
          [[[(''play'', 0)], [(''yesterday'', 1), (''let it be'', 1)]]]))) \<and>
   length (itertools_product [[(''play'', 0::int)], [(''yesterday'', 1), (''let it be'', 1)]]) =
     prod_list (map length [[(''play'', 0::int)], [(''yesterday'', 1), (''let it be'', 1)]])"
proof -
  let ?samples = "[[[(''play'', 0::int)], [(''yesterday'', 1), (''let it be'', 1)]]]"
  have 1: "distinct (map fst (filled_prompts filled_state))" by code_simp
  have 2: "(''play'', ?samples) \<in> set (filled_prompts filled_state)" by code_simp
  have 3: "[[(''play'', 0::int)], [(''yesterday'', 1), (''let it be'', 1)]] \<in> set ?samples"
    by simp
  have r: "permutation_generation filled_state =
     Done (filled_state\<lparr>premutated_prompts :=
       [(''play'', [[(''play'', 0), (''yesterday'', 1)], [(''play'', 0), (''let it be'', 1)]])]\<rparr>)"
    by code_simp
  show ?thesis
    using expander_product_count[of ?samples "''play''" filled_state] 1 2 3 r by blast
qed

text \<open>
  A template without tokens does not contribute zero utterances: a blank line in an
  intent file is such a template, its product is the one empty utterance, and the
  run below emits an example with an empty text for it.
\<close>

theorem empty_template_contributes_one:
  "script (greet_env [''\<newline>'']) tape_count ''data'' 5 False =
     Done ((Dataset_init ''data'' 5 False)
          \<lparr>intents := [(''greet'', [''''])], intents_label := [(0, ''greet'')],
           filled_prompts := [(''greet'', [[]])], premutated_prompts := [(''greet'', [[]])],
           generated_prompts := [(''greet'', [[]])],
           dataset := [\<lparr>prompts = '''', prompt_intent = 0, word_entities = []\<rparr>],
           stdout := [shortfall_message ''greet'' 1],
           written :=
             [(''data/intent_labels.json'', Json_map [(0, ''greet'')]),
              (''data/entity_labels.json'', Json_map []),
              (''data/dataset.csv'',
               Csv [\<lparr>prompts = '''', prompt_intent = 0, word_entities = []\<rparr>])]\<rparr>)"
  by code_simp

text \<open>
  C7, amended. A template that tokenizes to no token is filled to a template of zero
  slots, whose product is exactly one utterance, the empty one; the expander appends
  that one utterance to the list of the intent.
\<close>

theorem empty_template_one_utterance:
  assumes "split_ws template = []"
  shows "\<exists>slots. fill_sample ents template = Inr slots \<and> length slots = 0 \<and>
           itertools_product slots = [[]] \<and>
           extend_permutations (slots # samples) permutations =
             extend_permutations samples (permutations @ [[]])"
  using assms by (simp add: fill_sample_def)

theorem empty_template_one_utterance_witness:
  "\<exists>slots. fill_sample [] '' '' = Inr slots \<and> length slots = 0 \<and>
           itertools_product slots = [[]] \<and>
           extend_permutations (slots # []) [] = extend_permutations [] ([] @ [[]])"
proof -
  have 1: "split_ws '' '' = []" by code_simp
  show ?thesis using empty_template_one_utterance[OF 1, of "[]" "[]" "[]"] .
qed

section \<open>The label redistributor\<close>

lemma distribute_sample_concat:
  "distribute_sample ws new_sample = new_sample @ concat (map distribute_word ws)"
  by (induction ws arbitrary: new_sample) simp_all

lemma distribute_word_words:
  "wl \<in> set (distribute_word p) \<Longrightarrow> wordlike (fst wl) \<and> snd wl = snd p"
  by (auto simp: distribute_word_def split_ws_wordlike split: if_splits)

lemma distribute_word_literal:
  "wordlike w \<Longrightarrow> distribute_word (w, l) = [(w, l)]"
  by (simp add: distribute_word_def split_ws_of_word wordlike_iff)

section \<open>The invariant of the pipeline\<close>

lemma in_all_slots:
  "entry \<in> set ints \<Longrightarrow> t \<in> set (snd entry) \<Longrightarrow> fill_sample ents t = Inr slots \<Longrightarrow>
   slots \<in> set (all_slots ents ints)"
  by (force simp: all_slots_def all_templates_def)

lemma all_labeledD:
  assumes "l \<in> set (all_labeled E I)"
  shows "\<exists>entry \<in> set I. \<exists>t \<in> set (snd entry). \<exists>slots u.
           fill_sample E t = Inr slots \<and> u \<in> set (itertools_product slots) \<and>
           l = concat (map distribute_word u)"
proof -
  from assms obtain u where u: "u \<in> set (all_expanded E I)" and l: "l = distribute_sample u []"
    by (auto simp: all_labeled_def)
  from u obtain slots where s: "slots \<in> set (all_slots E I)"
    and us: "u \<in> set (itertools_product slots)"
    by (auto simp: all_expanded_def)
  from s obtain t where t: "t \<in> set (all_templates I)" and f: "fill_sample E t = Inr slots"
    by (auto simp: all_slots_def split: sum.splits)
  from t obtain entry where "entry \<in> set I" "t \<in> set (snd entry)"
    by (auto simp: all_templates_def)
  then show ?thesis using f us l by (auto simp: distribute_sample_concat)
qed

lemma labeled_words_wordlike:
  assumes "l \<in> set (all_labeled E I)"
  shows "\<forall>w \<in> set (map fst l). wordlike w"
proof -
  obtain u where "l = concat (map distribute_word u)" using all_labeledD[OF assms] by blast
  then show ?thesis using distribute_word_words by auto
qed

lemma pipeline_inv_iff:
  "pipeline_inv E I st \<longleftrightarrow>
     entities st = E \<and> intents st = I \<and> map snd (intents_label st) = map fst I \<and>
     entries_ok (map fst I) (\<lambda>slots. slots \<in> set (all_slots E I)) (filled_prompts st) \<and>
     entries_ok (map fst I) (\<lambda>u. u \<in> set (all_expanded E I)) (premutated_prompts st) \<and>
     entries_ok (map fst I) (\<lambda>l. l \<in> set (all_labeled E I)) (generated_prompts st) \<and>
     (\<forall>e \<in> set (dataset st). \<exists>l \<in> set (all_labeled E I). e = assemble (prompt_intent e) l)"
  by (auto simp: pipeline_inv_def list_all_iff)

lemma slot_filling_sample_inv:
  assumes "pipeline_inv E I t" and "entry \<in> set I" and "sample \<in> set (snd entry)"
  shows "pipeline_inv E I (outcome_state (slot_filling_sample c sample t))"
proof (cases "map_of (filled_prompts t) c")
  case None
  then show ?thesis using assms(1) by (simp add: slot_filling_sample_def)
next
  case (Some filled)
  show ?thesis
  proof (cases "fill_sample (entities t) sample")
    case (Inl e)
    then show ?thesis using Some assms(1) by (simp add: slot_filling_sample_def)
  next
    case (Inr slots)
    have ok: "entries_ok (map fst I) (\<lambda>slots. slots \<in> set (all_slots E I)) (filled_prompts t)"
      using assms(1) by (simp add: pipeline_inv_iff)
    have "(c, filled) \<in> set (filled_prompts t)" using Some by (rule map_of_SomeD)
    then have c: "c \<in> set (map fst I)" and old: "\<forall>v \<in> set filled. v \<in> set (all_slots E I)"
      using ok unfolding entries_ok_iff by force+
    have "entities t = E" using assms(1) by (simp add: pipeline_inv_iff)
    then have "slots \<in> set (all_slots E I)" using Inr assms(2,3) in_all_slots by metis
    then have "\<forall>v \<in> set (filled @ [slots]). v \<in> set (all_slots E I)" using old by simp
    then have "entries_ok (map fst I) (\<lambda>slots. slots \<in> set (all_slots E I))
                 (dict_set (filled_prompts t) c (filled @ [slots]))"
      using ok c by (rule entries_ok_dict_set[rotated 2])
    then show ?thesis using assms(1) Inr Some
      by (simp add: slot_filling_sample_def pipeline_inv_iff)
  qed
qed

lemma slot_filling_intent_inv:
  assumes "pipeline_inv E I t" and "entry \<in> set I"
  shows "pipeline_inv E I (outcome_state (slot_filling_intent entry t))"
  unfolding slot_filling_intent_def
proof (rule for_each_invariant)
  have "fst entry \<in> set (map fst I)" using assms(2) by simp
  then show "pipeline_inv E I (t\<lparr>filled_prompts := dict_set (filled_prompts t) (fst entry) []\<rparr>)"
    using assms(1) by (simp add: pipeline_inv_iff entries_ok_dict_set del: set_map)
next
  fix x u
  assume "x \<in> set (snd entry)" and "pipeline_inv E I u"
  then show "pipeline_inv E I (outcome_state (slot_filling_sample (fst entry) x u))"
    using assms(2) slot_filling_sample_inv by blast
qed

lemma slot_filling_inv:
  assumes "pipeline_inv E I st"
  shows "pipeline_inv E I (outcome_state (slot_filling st))"
  unfolding slot_filling_def
proof (rule for_each_invariant)
  show "pipeline_inv E I st" by (rule assms)
next
  fix x t
  assume "x \<in> set (intents st)" and "pipeline_inv E I t"
  moreover have "intents st = I" using assms by (simp add: pipeline_inv_iff)
  ultimately show "pipeline_inv E I (outcome_state (slot_filling_intent x t))"
    using slot_filling_intent_inv by blast
qed

lemma permutation_category_inv:
  assumes "pipeline_inv E I t" and "fst entry \<in> set (map fst I)"
    and "\<forall>slots \<in> set (snd entry). slots \<in> set (all_slots E I)"
  shows "pipeline_inv E I (outcome_state (permutation_category entry t))"
proof -
  have "\<forall>u \<in> set (extend_permutations (snd entry) []). u \<in> set (all_expanded E I)"
    using assms(3) by (auto simp: extend_permutations_concat all_expanded_def)
  then show ?thesis using assms(1,2)
    by (simp add: permutation_category_def pipeline_inv_iff entries_ok_dict_set del: set_map)
qed

lemma permutation_generation_inv:
  assumes "pipeline_inv E I st"
  shows "pipeline_inv E I (outcome_state (permutation_generation st))"
  unfolding permutation_generation_def
proof (rule for_each_invariant)
  show "pipeline_inv E I st" by (rule assms)
next
  fix x t
  assume "x \<in> set (filled_prompts st)" and "pipeline_inv E I t"
  moreover have "entries_ok (map fst I) (\<lambda>slots. slots \<in> set (all_slots E I)) (filled_prompts st)"
    using assms by (simp add: pipeline_inv_iff)
  ultimately show "pipeline_inv E I (outcome_state (permutation_category x t))"
    using permutation_category_inv by (simp add: entries_ok_iff del: set_map)
qed

lemma distributed_category_inv:
  assumes "pipeline_inv E I t" and "fst entry \<in> set (map fst I)"
    and "\<forall>u \<in> set (snd entry). u \<in> set (all_expanded E I)"
  shows "pipeline_inv E I (outcome_state (distributed_category entry t))"
proof -
  have "\<forall>l \<in> set (map (\<lambda>sample. distribute_sample sample []) (snd entry)).
          l \<in> set (all_labeled E I)"
    using assms(3) by (auto simp: all_labeled_def)
  then show ?thesis using assms(1,2)
    by (simp add: distributed_category_def pipeline_inv_iff entries_ok_dict_set
             del: set_map)
qed

lemma distributed_entities_label_inv:
  assumes "pipeline_inv E I st"
  shows "pipeline_inv E I (outcome_state (distributed_entities_label st))"
  unfolding distributed_entities_label_def
proof (rule for_each_invariant)
  show "pipeline_inv E I st" by (rule assms)
next
  fix x t
  assume "x \<in> set (premutated_prompts st)" and "pipeline_inv E I t"
  moreover have "entries_ok (map fst I) (\<lambda>u. u \<in> set (all_expanded E I)) (premutated_prompts st)"
    using assms by (simp add: pipeline_inv_iff)
  ultimately show "pipeline_inv E I (outcome_state (distributed_category x t))"
    using distributed_category_inv by (simp add: entries_ok_iff del: set_map)
qed

lemma append_example_inv:
  assumes "pipeline_inv E I t" and "sample \<in> set (all_labeled E I)"
  shows "pipeline_inv E I (outcome_state (append_example c sample t))"
proof (cases "index_of (map snd (intents_label t)) c")
  case None
  then show ?thesis using assms(1) by (simp add: append_example_def)
next
  case (Some i)
  have "prompt_intent (assemble i sample) = i" by (simp add: assemble_def)
  then have "\<exists>l \<in> set (all_labeled E I).
               assemble i sample = assemble (prompt_intent (assemble i sample)) l"
    using assms(2) by auto
  then show ?thesis using Some assms(1)
    by (simp add: append_example_def pipeline_inv_iff)
qed

lemma append_examples_inv:
  assumes "pipeline_inv E I t" and "\<forall>l \<in> set samples. l \<in> set (all_labeled E I)"
  shows "pipeline_inv E I (outcome_state (for_each (append_example c) samples t))"
  using assms(1)
proof (rule for_each_invariant)
  fix x u
  assume "x \<in> set samples" and "pipeline_inv E I u"
  then show "pipeline_inv E I (outcome_state (append_example c x u))"
    using assms(2) append_example_inv by blast
qed

lemma choices_subset:
  "choices rnd pos population k = Inr samples \<Longrightarrow> set samples \<subseteq> set population"
  by (auto simp: choices_def split: if_splits)

lemma generate_category_shortfall:
  "\<not> duplicates t \<Longrightarrow> int (length (snd entry)) < samples_per_intent t \<Longrightarrow>
   generate_category rnd entry t =
     for_each (append_example (fst entry)) (snd entry)
       (t\<lparr>stdout := stdout t @ [shortfall_message (fst entry) (length (snd entry))]\<rparr>)"
  by (simp add: generate_category_def)

lemma generate_category_quota:
  "duplicates t \<or> samples_per_intent t \<le> int (length (snd entry)) \<Longrightarrow>
   generate_category rnd entry t =
     (case choices rnd (draws t) (snd entry) (samples_per_intent t) of
        Inl e \<Rightarrow> Raised e (t\<lparr>draws := draws t + 1\<rparr>)
      | Inr samples \<Rightarrow>
          for_each (append_example (fst entry)) samples
            (t\<lparr>draws := draws t + nat (samples_per_intent t)\<rparr>))"
  by (auto simp: generate_category_def)

lemma generate_category_inv:
  assumes "pipeline_inv E I t" and "\<forall>l \<in> set (snd entry). l \<in> set (all_labeled E I)"
  shows "pipeline_inv E I (outcome_state (generate_category rnd entry t))"
proof (cases "\<not> duplicates t \<and> int (length (snd entry)) < samples_per_intent t")
  case True
  have "pipeline_inv E I
          (t\<lparr>stdout := stdout t @ [shortfall_message (fst entry) (length (snd entry))]\<rparr>)"
    using assms(1) by (simp add: pipeline_inv_iff)
  then show ?thesis using True assms(2) append_examples_inv
    by (simp add: generate_category_shortfall)
next
  case False
  then have quota: "duplicates t \<or> samples_per_intent t \<le> int (length (snd entry))"
    by auto
  show ?thesis
  proof (cases "choices rnd (draws t) (snd entry) (samples_per_intent t)")
    case (Inl e)
    then show ?thesis using assms(1)
      by (simp add: generate_category_quota[OF quota] pipeline_inv_iff)
  next
    case (Inr samples)
    have "\<forall>l \<in> set samples. l \<in> set (all_labeled E I)"
      using choices_subset[OF Inr] assms(2) by auto
    moreover have "pipeline_inv E I (t\<lparr>draws := draws t + nat (samples_per_intent t)\<rparr>)"
      using assms(1) by (simp add: pipeline_inv_iff)
    ultimately show ?thesis using Inr append_examples_inv
      by (simp add: generate_category_quota[OF quota])
  qed
qed

lemma generate_dataset_inv:
  assumes "pipeline_inv E I st"
  shows "pipeline_inv E I (outcome_state (generate_dataset rnd st))"
  unfolding generate_dataset_def
proof (rule for_each_invariant)
  show "pipeline_inv E I st" by (rule assms)
next
  fix x t
  assume "x \<in> set (generated_prompts st)" and "pipeline_inv E I t"
  moreover have "entries_ok (map fst I) (\<lambda>l. l \<in> set (all_labeled E I)) (generated_prompts st)"
    using assms by (simp add: pipeline_inv_iff)
  ultimately show "pipeline_inv E I (outcome_state (generate_category rnd x t))"
    using generate_category_inv by (simp add: entries_ok_iff)
qed

lemma stages_inv:
  assumes "pipeline_inv E I st"
  shows "pipeline_inv E I
           (outcome_state (and_then (and_then (slot_filling st) permutation_generation)
              distributed_entities_label))"
proof -
  let ?P = "pipeline_inv E I"
  have 1: "?P (outcome_state (slot_filling st))"
    using assms by (rule slot_filling_inv)
  have 2: "?P (outcome_state (and_then (slot_filling st) permutation_generation))"
    using 1 permutation_generation_inv by (rule outcome_state_and_then)
  show ?thesis using 2 distributed_entities_label_inv by (rule outcome_state_and_then)
qed

lemma genrate_dataset_inv:
  assumes "pipeline_inv E I st"
  shows "pipeline_inv E I (outcome_state (genrate_dataset rnd st))"
  unfolding genrate_dataset_def
  using stages_inv[OF assms] generate_dataset_inv by (rule outcome_state_and_then)

lemma load_inv:
  assumes "load ev (Dataset_init path n dup) = Done st"
  shows "pipeline_inv (entities st) (intents st) st"
  using assms
  by (auto simp: load_def Dataset_init_def pipeline_inv_iff entries_ok_iff Let_def
        generate_mapping_values split: if_splits sum.splits)

lemma pipeline_examples:
  assumes "load ev (Dataset_init path n dup) = Done st"
    and "e \<in> set (dataset (outcome_state (genrate_dataset rnd st)))"
  shows "\<exists>l \<in> set (all_labeled (entities st) (intents st)). \<exists>i. e = assemble i l"
proof -
  have "pipeline_inv (entities st) (intents st) (outcome_state (genrate_dataset rnd st))"
    using load_inv[OF assms(1)] by (rule genrate_dataset_inv)
  then have "\<forall>x \<in> set (dataset (outcome_state (genrate_dataset rnd st))).
          \<exists>l \<in> set (all_labeled (entities st) (intents st)). x = assemble (prompt_intent x) l"
    by (simp add: pipeline_inv_iff)
  then show ?thesis using assms(2) by blast
qed

text \<open>In a run every category that reaches the sampler has its position among the
  values of the intent label map, so the lookup of \<open>prompt_intent\<close> finds it.\<close>

lemma generated_categories_indexed:
  assumes "load ev (Dataset_init path n dup) = Done st"
    and "and_then (and_then (slot_filling st) permutation_generation)
           distributed_entities_label = Done st3"
    and "entry \<in> set (generated_prompts st3)"
  shows "\<exists>i. index_of (map snd (intents_label st3)) (fst entry) = Some i"
proof -
  have "pipeline_inv (entities st) (intents st) st3"
    using stages_inv[OF load_inv[OF assms(1)]] assms(2) by simp
  then have "fst entry \<in> set (map snd (intents_label st3))"
    using assms(3) by (simp add: pipeline_inv_iff entries_ok_iff del: set_map)
  then show ?thesis by (rule index_of_member)
qed

section \<open>The examples of a run\<close>

lemma song_load: "load song_env (Dataset_init ''data'' 5 False) = Done song_state"
  by code_simp

lemma song_example:
  "\<lparr>prompts = ''play let it be'', prompt_intent = 0, word_entities = [0, 1, 1, 1]\<rparr>
     \<in> set (dataset (outcome_state (genrate_dataset tape_count song_state)))"
  by code_simp

text \<open>
  The number of labels is not always the number of pieces that splitting the text on
  single spaces yields: a blank line in an intent file gives an example with the
  empty text and no label, and the empty text splits into one (empty) piece.
\<close>

theorem blank_template_single_space_split:
  "dataset (outcome_state (script (greet_env [''\<newline>'']) tape_count ''data'' 5 False)) =
     [\<lparr>prompts = [], prompt_intent = 0, word_entities = []\<rparr>] \<and>
   length (split_single_space []) = 1 \<and>
   length (word_entities \<lparr>prompts = [], prompt_intent = 0, word_entities = []\<rparr>) = 0"
  by code_simp

text \<open>
  C2, amended. In every run (any files, any quota, duplicates allowed or not, any
  draws, and whether the run ends or raises), every example in the data set has as
  many labels in \<open>word_entities\<close> as its text has whitespace-separated words.
  Splitting the text on single spaces yields as many words as there are labels
  whenever the example has a label at all; an example without labels has the empty
  text, which splits on single spaces into one empty piece.
\<close>

theorem word_entities_aligned:
  assumes "load ev (Dataset_init path n dup) = Done st"
    and "e \<in> set (dataset (outcome_state (genrate_dataset rnd st)))"
  shows "length (word_entities e) = length (split_ws (prompts e)) \<and>
         (word_entities e \<noteq> [] \<longrightarrow>
            length (word_entities e) = length (split_single_space (prompts e))) \<and>
         (word_entities e = [] \<longrightarrow>
            prompts e = [] \<and> split_single_space (prompts e) = [[]])"
proof -
  obtain l i where l: "l \<in> set (all_labeled (entities st) (intents st))"
    and e: "e = assemble i l"
    using pipeline_examples[OF assms] by blast
  have words: "\<forall>w \<in> set (map fst l). wordlike w" using l by (rule labeled_words_wordlike)
  have p: "prompts e = join_space (map fst l)" and w: "word_entities e = map snd l"
    using e by (simp_all add: assemble_def)
  have "split_ws (prompts e) = map fst l"
    using split_ws_join[OF words] p by simp
  then have 1: "length (word_entities e) = length (split_ws (prompts e))" using w by simp
  have 2: "word_entities e \<noteq> [] \<longrightarrow>
             length (word_entities e) = length (split_single_space (prompts e))"
  proof
    assume "word_entities e \<noteq> []"
    then have "map fst l \<noteq> []" using w by auto
    then have "split_single_space (prompts e) = map fst l"
      using split_sep_join[OF words] p by (simp add: split_single_space_def)
    then show "length (word_entities e) = length (split_single_space (prompts e))"
      using w by simp
  qed
  have 3: "word_entities e = [] \<longrightarrow> prompts e = [] \<and> split_single_space (prompts e) = [[]]"
    using p w by (auto simp: split_single_space_def)
  show ?thesis using 1 2 3 by blast
qed

theorem word_entities_aligned_witness:
  "length [0, 1, 1, 1 :: int] = length (split_ws ''play let it be'') \<and>
   length [0, 1, 1, 1 :: int] = length (split_single_space ''play let it be'')"
  using word_entities_aligned[OF song_load song_example] by simp

lemma position_labels:
  assumes fill: "fill_sample ents t = Inr slots"
    and u: "u \<in> set (itertools_product slots)"
    and ids: "ids_ok ents"
    and i: "i < length u"
    and wl: "wl \<in> set (distribute_word (u ! i))"
  shows "if is_placeholder (split_ws t ! i)
         then 1 \<le> snd wl \<and>
              (\<exists>values. map_of ents (strip_braces (split_ws t ! i)) = Some values \<and>
                 u ! i \<in> set values \<and> (\<forall>p \<in> set values. snd p = snd wl))
         else wl = (split_ws t ! i, 0)"
proof -
  let ?tok = "split_ws t ! i"
  have len: "length u = length slots" and mem: "u ! i \<in> set (slots ! i)"
    using u i by (simp_all add: itertools_product_iff)
  have pos: "length slots = length (split_ws t)" "fill_word ents ?tok = Inr (slots ! i)"
    using fill_words_positions[of ents "split_ws t" slots] fill i len
    by (simp_all add: fill_sample_def)
  have "?tok \<in> set (split_ws t)" using i len pos(1) by simp
  then have tok: "wordlike ?tok" by (rule split_ws_wordlike)
  show ?thesis
  proof (cases "is_placeholder ?tok")
    case True
    have look: "map_of ents (strip_braces ?tok) = Some (slots ! i)"
      using pos(2) True by (rule fill_word_placeholder)
    then have "(strip_braces ?tok, slots ! i) \<in> set ents" by (rule map_of_SomeD)
    then obtain sid where sid: "1 \<le> sid" "\<forall>p \<in> set (slots ! i). snd p = sid"
      using ids_okD[OF ids] by force
    have "snd wl = snd (u ! i)" using wl distribute_word_words by blast
    then have "snd wl = sid" using sid(2) mem by simp
    then show ?thesis using True look mem sid by auto
  next
    case False
    have "slots ! i = [(?tok, 0)]" using pos(2) False by (rule fill_word_literal)
    then have "u ! i = (?tok, 0)" using mem by simp
    then show ?thesis using False wl tok by (simp add: distribute_word_literal)
  qed
qed

text \<open>
  C3. Every example of a run comes from a template \<open>t\<close> of a loaded intent and an
  utterance \<open>u\<close> of its product, one pair per token of \<open>t\<close>; its words and labels are
  those of the pairs of \<open>u\<close>, in order, each pair split into its words. The words of
  a pair at a placeholder token carry the id of the entity group the placeholder
  names, which all pairs of that group carry and which is at least 1. The pair at any
  other token is the token itself with the label 0. So the label 0 stands on words of
  literal tokens only, and never on a word of an entity substitution.
\<close>

theorem label_zero_only_on_literals:
  assumes "load ev (Dataset_init path n dup) = Done st"
    and "e \<in> set (dataset (outcome_state (genrate_dataset rnd st)))"
  shows "\<exists>entry \<in> set (intents st). \<exists>t \<in> set (snd entry). \<exists>slots u.
           fill_sample (entities st) t = Inr slots \<and>
           u \<in> set (itertools_product slots) \<and>
           length u = length (split_ws t) \<and>
           prompts e = join_space (map fst (concat (map distribute_word u))) \<and>
           word_entities e = map snd (concat (map distribute_word u)) \<and>
           (\<forall>i < length u. \<forall>wl \<in> set (distribute_word (u ! i)).
              if is_placeholder (split_ws t ! i)
              then 1 \<le> snd wl \<and>
                   (\<exists>values. map_of (entities st) (strip_braces (split_ws t ! i)) = Some values \<and>
                      u ! i \<in> set values \<and> (\<forall>p \<in> set values. snd p = snd wl))
              else wl = (split_ws t ! i, 0))"
proof -
  obtain l k where l: "l \<in> set (all_labeled (entities st) (intents st))"
    and e: "e = assemble k l"
    using pipeline_examples[OF assms] by blast
  obtain entry t slots u where entry: "entry \<in> set (intents st)" "t \<in> set (snd entry)"
    and fill: "fill_sample (entities st) t = Inr slots"
    and u: "u \<in> set (itertools_product slots)"
    and lu: "l = concat (map distribute_word u)"
    using all_labeledD[OF l] by blast
  have ids: "ids_ok (entities st)" using assms(1) by (rule load_ids_ok)
  have "length u = length slots" using u by (simp add: itertools_product_iff)
  moreover have "length slots = length (split_ws t)"
    using fill_words_positions[of "entities st" "split_ws t" slots] fill
    by (simp add: fill_sample_def)
  ultimately have len: "length u = length (split_ws t)" by simp
  have labels: "\<forall>i < length u. \<forall>wl \<in> set (distribute_word (u ! i)).
              if is_placeholder (split_ws t ! i)
              then 1 \<le> snd wl \<and>
                   (\<exists>values. map_of (entities st) (strip_braces (split_ws t ! i)) = Some values \<and>
                      u ! i \<in> set values \<and> (\<forall>p \<in> set values. snd p = snd wl))
              else wl = (split_ws t ! i, 0)"
    using position_labels[OF fill u ids] by blast
  have "prompts e = join_space (map fst (concat (map distribute_word u)))"
    and "word_entities e = map snd (concat (map distribute_word u))"
    using e lu by (simp_all add: assemble_def)
  then show ?thesis using entry fill u len labels by blast
qed

theorem label_zero_only_on_literals_witness:
  "\<exists>entry \<in> set (intents song_state). \<exists>t \<in> set (snd entry). \<exists>slots u.
           fill_sample (entities song_state) t = Inr slots \<and>
           u \<in> set (itertools_product slots) \<and>
           length u = length (split_ws t) \<and>
           ''play let it be'' = join_space (map fst (concat (map distribute_word u))) \<and>
           [0, 1, 1, 1] = map snd (concat (map distribute_word u)) \<and>
           (\<forall>i < length u. \<forall>wl \<in> set (distribute_word (u ! i)).
              if is_placeholder (split_ws t ! i)
              then 1 \<le> snd wl \<and>
                   (\<exists>values. map_of (entities song_state) (strip_braces (split_ws t ! i)) = Some values \<and>
                      u ! i \<in> set values \<and> (\<forall>p \<in> set values. snd p = snd wl))
              else wl = (split_ws t ! i, 0))"
  using label_zero_only_on_literals[OF song_load song_example] by simp

section \<open>The sampler\<close>







section \<open>Reproducibility\<close>










section \<open>A missing data set directory\<close>

lemma genrate_dataset_init:
  "genrate_dataset rnd ((Dataset_init path n dup)\<lparr>stdout := out\<rparr>) =
     Done ((Dataset_init path n dup)\<lparr>stdout := out\<rparr>)"
  by (simp add: genrate_dataset_def slot_filling_def permutation_generation_def
        distributed_entities_label_def generate_dataset_def Dataset_init_def)

text \<open>
  A missing directory does not by itself keep a run from writing: \<open>load\<close> prints and
  returns, generation runs on the empty object, and a \<open>save\<close> to another directory,
  in which files can be created, writes two empty label maps and an empty data set.
\<close>

theorem missing_directory_other_save_path:
  "and_then (and_then (load out_env (Dataset_init ''data'' 10 False)) (genrate_dataset tape_count))
     (save out_env (Some ''out'') ''csv'') =
   Done ((Dataset_init ''data'' 10 False)
     \<lparr>stdout := [''Dataset directory does not exist''],
      written := [(''out/intent_labels.json'', Json_map []),
                  (''out/entity_labels.json'', Json_map []),
                  (''out/dataset.csv'', Csv [])]\<rparr>)"
  by code_simp

text \<open>
  C9, amended. If the data set directory does not exist, \<open>load\<close> prints the
  diagnostic and returns with the object as it was created: no entity, no intent, no
  label, no example; generation on it returns and adds nothing. Nothing tests the
  save path. When the run then saves to that same path, as the script does and as
  \<open>save\<close> does by default, and the file system refuses to open the first label map
  there (\<open>path/intent_labels.json\<close>) with an exception, that exception ends the run
  at once, and the run has written no file.
\<close>

theorem missing_directory_nothing_written:
  assumes "\<not> isdir ev path"
    and "open_write ev (path @ ''/intent_labels.json'') = Some err"
  shows "load ev (Dataset_init path n dup) =
           Done ((Dataset_init path n dup)\<lparr>stdout := [''Dataset directory does not exist'']\<rparr>) \<and>
         genrate_dataset rnd
             ((Dataset_init path n dup)\<lparr>stdout := [''Dataset directory does not exist'']\<rparr>) =
           Done ((Dataset_init path n dup)\<lparr>stdout := [''Dataset directory does not exist'']\<rparr>) \<and>
         script ev rnd path n dup =
           Raised err
             ((Dataset_init path n dup)\<lparr>stdout := [''Dataset directory does not exist'']\<rparr>) \<and>
         and_then (and_then (load ev (Dataset_init path n dup)) (genrate_dataset rnd))
             (save ev None form) =
           Raised err
             ((Dataset_init path n dup)\<lparr>stdout := [''Dataset directory does not exist'']\<rparr>) \<and>
         written ((Dataset_init path n dup)\<lparr>stdout := [''Dataset directory does not exist'']\<rparr>)
           = []"
proof -
  let ?st = "(Dataset_init path n dup)\<lparr>stdout := [''Dataset directory does not exist'']\<rparr>"
  have l: "load ev (Dataset_init path n dup) = Done ?st"
    using assms(1) by (simp add: load_def Dataset_init_def)
  have g: "genrate_dataset rnd ?st = Done ?st" by (rule genrate_dataset_init)
  have p: "dataset_path ?st = path" by (simp add: Dataset_init_def)
  have s: "save ev (Some path) ''csv'' ?st = Raised err ?st"
    using assms(2) by (simp add: save_def save_maps_def write_file_def)
  have s': "save ev None form ?st = Raised err ?st"
    using assms(2) p by (simp add: save_def save_maps_def write_file_def)
  have w: "written ?st = []" by (simp add: Dataset_init_def)
  show ?thesis using l g s s' w by (simp add: script_def)
qed

theorem missing_directory_nothing_written_witness:
  "load out_env (Dataset_init ''data'' 10 False) =
     Done ((Dataset_init ''data'' 10 False)\<lparr>stdout := [''Dataset directory does not exist'']\<rparr>) \<and>
   script out_env tape_count ''data'' 10 False =
     Raised (FileNotFoundError ''data/intent_labels.json'')
       ((Dataset_init ''data'' 10 False)\<lparr>stdout := [''Dataset directory does not exist'']\<rparr>)"
proof -
  have 1: "\<not> isdir out_env ''data''" by code_simp
  have 2: "open_write out_env (''data'' @ ''/intent_labels.json'') =
             Some (FileNotFoundError ''data/intent_labels.json'')" by code_simp
  show ?thesis
    using missing_directory_nothing_written[OF 1 2, of 10 False tape_count "''csv''"] by simp
qed

section \<open>Entity ids and the entity label map\<close>

text \<open>
  C10. The ids on the pairs count the entity files, the keys of the label map count
  the names. Two entity files of one stem in different subdirectories make the two
  differ: below, \<open>name\<close> stands under the key 1 and its pair carries the id 2, and
  \<open>genre\<close> stands under the key 2 and its pair carries the id 3, which is no key of
  the map. (Where the stems are pairwise distinct the two agree:
  \<open>distinct_stems_ids_match_keys\<close>.)
\<close>

theorem shared_stem_ids_differ_from_keys:
  "load twice_env (Dataset_init ''data'' 10 False) =
     Done ((Dataset_init ''data'' 10 False)
       \<lparr>entities := [(''name'', [(''yesterday'', 2)]), (''genre'', [(''rock'', 3)])],
        entities_label := [(1, ''name''), (2, ''genre'')]\<rparr>)"
  by code_simp

end
